theory Spec2Isabelle
  imports Complex_Main
begin

section \<open>Circuits as the program builds them\<close>

text \<open>
  The program builds its circuits through the circuit library's \<open>QuantumCircuit\<close>
  object: a qubit count, a classical-bit count and an ordered list of instructions.
  Qubits are addressed by their index in the circuit; the data register \<open>qr\<close> holds
  the indices \<open>0..n-1\<close> and the one-qubit register \<open>auxiliary\<close> holds index \<open>n\<close>,
  because the registers are added in that order.
\<close>

datatype gate = PauliX nat | Hadamard nat | ControlledNot nat nat

text \<open>
  The exceptions the program can end with: \<open>CircuitError\<close> of the circuit library,
  \<open>ValueError\<close> and \<open>ZeroDivisionError\<close> of the language, an error of the simulator,
  and the contract violation of the statevector engine described further down.
\<close>

datatype py_error = CircuitError | ValueError | ZeroDivisionError | ContractViolation | SimulatorError

datatype instruction = Gate gate | Barrier "nat list" | Measure nat nat

record circuit =
  num_qubits :: nat
  num_clbits :: nat
  data :: "instruction list"

definition QuantumCircuit :: "nat \<Rightarrow> nat \<Rightarrow> circuit" where
  "QuantumCircuit nq nc = \<lparr>num_qubits = nq, num_clbits = nc, data = []\<rparr>"

definition append_instruction :: "circuit \<Rightarrow> instruction \<Rightarrow> circuit" where
  "append_instruction c i = c\<lparr>data := data c @ [i]\<rparr>"

definition qc_x :: "circuit \<Rightarrow> nat \<Rightarrow> circuit" where
  "qc_x c q = append_instruction c (Gate (PauliX q))"

definition qc_h :: "circuit \<Rightarrow> nat \<Rightarrow> circuit" where
  "qc_h c q = append_instruction c (Gate (Hadamard q))"

definition qc_cx :: "circuit \<Rightarrow> nat \<Rightarrow> nat \<Rightarrow> circuit" where
  "qc_cx c ctl tgt = append_instruction c (Gate (ControlledNot ctl tgt))"

text \<open>
  \<open>circuit.h(qr)\<close> on a register applies the gate to each of its qubits in order; on a
  register without qubits the library raises \<open>CircuitError\<close>.
\<close>

definition qc_h_register :: "circuit \<Rightarrow> nat list \<Rightarrow> py_error + circuit" where
  "qc_h_register c qs =
     (if qs = [] then Inl CircuitError else Inr (fold (\<lambda>q acc. qc_h acc q) qs c))"

text \<open>\<open>circuit.barrier()\<close> without arguments spans every qubit of the circuit.\<close>

definition qc_barrier :: "circuit \<Rightarrow> circuit" where
  "qc_barrier c = append_instruction c (Barrier [0..<num_qubits c])"

text \<open>
  \<open>circuit.measure(qr, cr)\<close> measures qubit \<open>qr[i]\<close> into classical bit \<open>cr[i]\<close>. The
  program reaches it only with registers that hold a qubit, the empty one having failed
  at \<open>circuit.h(qr)\<close> before.
\<close>

definition qc_measure :: "circuit \<Rightarrow> nat list \<Rightarrow> nat list \<Rightarrow> circuit" where
  "qc_measure c qs cs = fold (\<lambda>(q, b) acc. append_instruction acc (Measure q b)) (zip qs cs) c"

fun remap_gate :: "(nat \<Rightarrow> nat) \<Rightarrow> gate \<Rightarrow> gate" where
  "remap_gate f (PauliX q) = PauliX (f q)"
| "remap_gate f (Hadamard q) = Hadamard (f q)"
| "remap_gate f (ControlledNot c t) = ControlledNot (f c) (f t)"

fun remap_instruction :: "(nat \<Rightarrow> nat) \<Rightarrow> instruction \<Rightarrow> instruction" where
  "remap_instruction f (Gate g) = Gate (remap_gate f g)"
| "remap_instruction f (Barrier qs) = Barrier (map f qs)"
| "remap_instruction f (Measure q b) = Measure (f q) b"

text \<open>
  \<open>circuit.compose(other, qubits=qs, inplace=True)\<close> appends the instructions of
  \<open>other\<close>, its qubit \<open>j\<close> placed on qubit \<open>qs[j]\<close> of the circuit. The program
  calls it with a list \<open>qs\<close> as long as \<open>other\<close> has qubits, so every \<open>qs[j]\<close> exists.
\<close>

definition qc_compose :: "circuit \<Rightarrow> circuit \<Rightarrow> nat list \<Rightarrow> circuit" where
  "qc_compose c other qs = c\<lparr>data := data c @ map (remap_instruction (\<lambda>j. qs ! j)) (data other)\<rparr>"

subsection \<open>\<open>create_oracle\<close>\<close>

definition create_oracle :: "string \<Rightarrow> circuit" where
  "create_oracle secret_string =
     (let n = length secret_string;
          oracle = QuantumCircuit (n + 1) 0
      in fold (\<lambda>(i, bit) acc. if bit = CHR ''1'' then qc_cx acc i n else acc)
              (enumerate 0 (rev secret_string)) oracle)"

subsection \<open>\<open>bernstein_vazirani_circuit\<close>\<close>

text \<open>
  With an empty secret the data register is empty and the first \<open>circuit.h(qr)\<close> raises;
  the exception leaves the function.
\<close>

definition bernstein_vazirani_circuit :: "string \<Rightarrow> py_error + circuit" where
  "bernstein_vazirani_circuit secret_string =
     (let n = length secret_string;
          qr = [0..<n];
          auxiliary = [n];
          cr = [0..<n];
          c0 = QuantumCircuit (length qr + length auxiliary) (length cr);
          c1 = qc_x c0 (hd auxiliary);
          c2 = qc_h c1 (hd auxiliary)
      in case qc_h_register c2 qr of
           Inl e \<Rightarrow> Inl e
         | Inr c3 \<Rightarrow>
             (let c4 = qc_barrier c3;
                  oracle = create_oracle secret_string;
                  c5 = qc_compose c4 oracle [0..<n + 1];
                  c6 = qc_barrier c5
              in case qc_h_register c6 qr of
                   Inl e \<Rightarrow> Inl e
                 | Inr c7 \<Rightarrow> Inr (qc_measure c7 qr cr)))"

subsection \<open>\<open>validate_binary_string\<close>\<close>

definition validate_binary_string :: "string \<Rightarrow> bool" where
  "validate_binary_string s = (list_all (\<lambda>c. c \<in> set ''01'') s \<and> length s > 0)"

subsection \<open>Reading a circuit\<close>

definition gates_of :: "circuit \<Rightarrow> gate list" where
  "gates_of c = concat (map (\<lambda>i. case i of Gate g \<Rightarrow> [g] | _ \<Rightarrow> []) (data c))"

definition measured_qubits :: "circuit \<Rightarrow> nat list" where
  "measured_qubits c = concat (map (\<lambda>i. case i of Measure q b \<Rightarrow> [q] | _ \<Rightarrow> []) (data c))"

fun is_barrier :: "instruction \<Rightarrow> bool" where
  "is_barrier (Barrier qs) = True"
| "is_barrier _ = False"

definition remove_barriers :: "circuit \<Rightarrow> circuit" where
  "remove_barriers c = c\<lparr>data := filter (\<lambda>i. \<not> is_barrier i) (data c)\<rparr>"

text \<open>The positions of a secret that hold \<open>1\<close>, counted from its last character.\<close>

definition one_positions :: "string \<Rightarrow> nat list" where
  "one_positions s = filter (\<lambda>i. rev s ! i = CHR ''1'') [0..<length s]"

section \<open>Running the algorithm\<close>

text \<open>
  The result of a simulation is the library's counts dictionary, from measured
  bitstring to number of occurrences. It is kept as an association list in the
  dictionary's iteration order, which \<open>max\<close> and \<open>sorted\<close> observe on ties; its keys
  are distinct.
\<close>

type_synonym counts_dict = "(string \<times> nat) list"

text \<open>
  The simulator (\<open>AerSimulator().run(circuit, shots=shots).result().get_counts()\<close>) is
  a library outside the program: the program's own functions take it as a parameter.
\<close>

type_synonym simulator = "circuit \<Rightarrow> nat \<Rightarrow> py_error + counts_dict"

definition simulate_circuit :: "simulator \<Rightarrow> circuit \<Rightarrow> nat \<Rightarrow> py_error + counts_dict" where
  "simulate_circuit simulator c shots = simulator c shots"

text \<open>\<open>counts.get\<close>, used only on keys of \<open>counts\<close> itself.\<close>

definition counts_get :: "counts_dict \<Rightarrow> string \<Rightarrow> nat" where
  "counts_get counts k = (case map_of counts k of Some v \<Rightarrow> v | None \<Rightarrow> 0)"

text \<open>
  \<open>max(xs, key=f)\<close>: the first element whose key is maximal; \<open>ValueError\<close> on an
  empty sequence.
\<close>

fun max_key :: "('a \<Rightarrow> nat) \<Rightarrow> 'a list \<Rightarrow> py_error + 'a" where
  "max_key f [] = Inl ValueError"
| "max_key f (x # xs) = Inr (fold (\<lambda>y best. if f best < f y then y else best) xs x)"

text \<open>
  \<open>run_bernstein_vazirani\<close> has no \<open>return\<close> statement: it returns \<open>None\<close> and
  its results go to the terminal. The model returns what was printed up to the end, or up
  to the exception, together with the unit value for \<open>None\<close> or the exception. Of the
  printed lines, those that report the simulation are kept: the announcement of the run
  with its shot count, one line for each entry of the counts sorted by descending count
  (a stable sort), the found string, and the verdict on whether it equals the secret.
  The banners, the echo of the inputs, the circuit information and the diagram (with the
  flag \<open>show_circuit\<close> that selects it) are left out. The percentage
  \<open>count / shots\<close> is computed before a measurement line is printed and raises
  \<open>ZeroDivisionError\<close> when \<open>shots\<close> is zero.
\<close>

datatype printed =
    RunningSimulation nat
  | MeasurementLine string nat
  | FoundString string
  | Success
  | Mismatch

definition run_bernstein_vazirani ::
  "simulator \<Rightarrow> string \<Rightarrow> nat \<Rightarrow> printed list \<times> (py_error + unit)" where
  "run_bernstein_vazirani simulator secret_string shots =
     (case bernstein_vazirani_circuit secret_string of
        Inl e \<Rightarrow> ([], Inl e)
      | Inr c \<Rightarrow>
          (case simulate_circuit simulator c shots of
             Inl e \<Rightarrow> ([RunningSimulation shots], Inl e)
           | Inr cnts \<Rightarrow>
               (let sorted_counts = sort_key (\<lambda>p. - int (snd p)) cnts
                in if sorted_counts \<noteq> [] \<and> shots = 0
                   then ([RunningSimulation shots], Inl ZeroDivisionError)
                   else (let out = RunningSimulation shots
                                     # map (\<lambda>(measured_string, n). MeasurementLine measured_string n)
                                         sorted_counts
                         in case max_key (counts_get cnts) (map fst cnts) of
                              Inl e \<Rightarrow> (out, Inl e)
                            | Inr found_string \<Rightarrow>
                                (out @ [FoundString found_string,
                                        if found_string = secret_string then Success else Mismatch],
                                 Inr ())))))"

section \<open>The statevector engine and the measurement sampler\<close>

text \<open>
  The program hands its circuit to an external simulator library, whose code is not part
  of the repository. The specification describes what that simulator computes (its
  sections 4.3 and 4.4), and the definitions of this section follow its words.
  Amplitudes are exact complex numbers here, not floating-point numbers.
\<close>

type_synonym statevector = "complex list"

text \<open>
  Modelled from the spec: the initial state of the Statevector Engine, which the program
  leaves to the simulator library: amplitude 1 at the all-zero basis state, 0 elsewhere.
\<close>

definition initial_state :: "nat \<Rightarrow> statevector" where
  "initial_state nq = map (\<lambda>k. if k = 0 then 1 else 0) [0..<2 ^ nq]"

text \<open>
  Modelled from the spec: the gate updates of the Statevector Engine, which the program
  leaves to the simulator library. Basis state \<open>k\<close> has qubit \<open>t\<close> set when \<open>bit k t\<close>, and
  \<open>flip_bit t k\<close> is the basis state with that bit flipped. PauliX swaps the two
  amplitudes of a pair; Hadamard replaces the pair \<open>(a0, a1)\<close> by
  \<open>((a0 + a1) / sqrt 2, (a0 - a1) / sqrt 2)\<close>; ControlledNot swaps the pair of the
  target where the control bit is set.
\<close>

fun apply_gate :: "gate \<Rightarrow> statevector \<Rightarrow> statevector" where
  "apply_gate (PauliX t) \<psi> = map (\<lambda>k. \<psi> ! flip_bit t k) [0..<length \<psi>]"
| "apply_gate (Hadamard t) \<psi> =
     map (\<lambda>k. if bit k t
               then (\<psi> ! flip_bit t k - \<psi> ! k) / complex_of_real (sqrt 2)
               else (\<psi> ! k + \<psi> ! flip_bit t k) / complex_of_real (sqrt 2))
         [0..<length \<psi>]"
| "apply_gate (ControlledNot c t) \<psi> =
     map (\<lambda>k. if bit k c then \<psi> ! flip_bit t k else \<psi> ! k) [0..<length \<psi>]"

text \<open>
  Modelled from the spec: the range check of the Statevector Engine (absent from the
  program): a gate that names a qubit outside the register, or a controlled gate whose
  control is its target, violates the contract.
\<close>

fun gate_in_range :: "nat \<Rightarrow> gate \<Rightarrow> bool" where
  "gate_in_range nq (PauliX t) = (t < nq)"
| "gate_in_range nq (Hadamard t) = (t < nq)"
| "gate_in_range nq (ControlledNot c t) = (c < nq \<and> t < nq \<and> c \<noteq> t)"

text \<open>
  Modelled from the spec: the evolution loop of the Statevector Engine (absent from the
  program): the gates are applied in order, each to the state the previous one left.
\<close>

definition run_gates :: "gate list \<Rightarrow> statevector \<Rightarrow> statevector" where
  "run_gates gs \<psi> = fold apply_gate gs \<psi>"

text \<open>
  Modelled from the spec: the Statevector Engine as a whole (absent from the program):
  from the all-zero state through every gate, or a contract violation when a gate is out
  of range.
\<close>

definition evolve :: "nat \<Rightarrow> gate list \<Rightarrow> py_error + statevector" where
  "evolve nq gs =
     (if list_all (gate_in_range nq) gs then Inr (run_gates gs (initial_state nq))
      else Inl ContractViolation)"

text \<open>
  Modelled from the spec: the probability mass of a state (the program never looks at a
  state): the sum of the squared magnitudes of its amplitudes.
\<close>

definition probability_mass :: "statevector \<Rightarrow> real" where
  "probability_mass \<psi> = sum_list (map (\<lambda>a. (cmod a)\<^sup>2) \<psi>)"

text \<open>
  Modelled from the spec: the text of an outcome (the simulator library formats it in the
  program). An outcome is an assignment \<open>a\<close> of the measured qubits, bit \<open>j\<close> of \<open>a\<close>
  for the \<open>j\<close>-th measured qubit; it is written with the first measured qubit as the last
  character, the convention \<open>create_oracle\<close> uses for the secret.
\<close>

definition outcome_bitstring :: "nat \<Rightarrow> nat \<Rightarrow> string" where
  "outcome_bitstring m a = map (\<lambda>j. if bit a j then CHR ''1'' else CHR ''0'') (rev [0..<m])"

text \<open>
  Modelled from the spec: step 1 of the Measurement Sampler (absent from the program):
  basis state \<open>k\<close> matches the assignment \<open>a\<close> when it agrees with it on every measured
  qubit.
\<close>

definition matches :: "nat list \<Rightarrow> nat \<Rightarrow> nat \<Rightarrow> bool" where
  "matches qs a k = list_all (\<lambda>j. bit k (qs ! j) = bit a j) [0..<length qs]"

text \<open>
  Modelled from the spec: step 1 of the Measurement Sampler (absent from the program):
  the probability of an assignment is the sum of the squared magnitudes of the amplitudes
  of the basis states that match it, the unmeasured qubits summed over.
\<close>

definition outcome_probability :: "statevector \<Rightarrow> nat list \<Rightarrow> nat \<Rightarrow> real" where
  "outcome_probability \<psi> qs a =
     sum_list (map (\<lambda>k. (cmod (\<psi> ! k))\<^sup>2) (filter (matches qs a) [0..<length \<psi>]))"

text \<open>
  Modelled from the spec: the Outcome Distribution (absent from the program): every
  assignment of the measured qubits with its probability.
\<close>

definition outcome_distribution :: "statevector \<Rightarrow> nat list \<Rightarrow> (string \<times> real) list" where
  "outcome_distribution \<psi> qs =
     map (\<lambda>a. (outcome_bitstring (length qs) a, outcome_probability \<psi> qs a))
         [0..<2 ^ length qs]"

text \<open>
  Modelled from the spec: one draw of step 2 of the Measurement Sampler (absent from the
  program). The specification asks for a sample from the categorical distribution and
  leaves the method open; this one walks the cumulative probabilities with a uniform
  variate \<open>u\<close> from \<open>[0, 1)\<close> and takes the last outcome when the walk runs out.
\<close>

fun pick_outcome :: "real \<Rightarrow> (string \<times> real) list \<Rightarrow> string" where
  "pick_outcome u [] = []"
| "pick_outcome u [(k, p)] = k"
| "pick_outcome u ((k, p) # rest) = (if u < p then k else pick_outcome (u - p) rest)"

text \<open>
  Modelled from the spec: step 2 of the Measurement Sampler (absent from the program).
  The pseudo-random source \<open>rng\<close> is a parameter: for a seed it gives the sequence of
  uniform variates, and shot \<open>i\<close> uses the \<open>i\<close>-th.
\<close>

definition sample_shots :: "(nat \<Rightarrow> nat \<Rightarrow> real) \<Rightarrow> nat \<Rightarrow> (string \<times> real) list \<Rightarrow> nat \<Rightarrow> string list"
  where
  "sample_shots rng seed distr shots = map (\<lambda>i. pick_outcome (rng seed i) distr) [0..<shots]"

text \<open>
  Modelled from the spec: the accumulation of occurrence counts (done by the simulator
  library in the program): one more for the observed bitstring, which enters the
  dictionary at the end when it is new.
\<close>

fun record_outcome :: "string \<Rightarrow> counts_dict \<Rightarrow> counts_dict" where
  "record_outcome x [] = [(x, 1)]"
| "record_outcome x ((k, v) # rest) =
     (if k = x then (k, v + 1) # rest else (k, v) # record_outcome x rest)"

text \<open>
  Modelled from the spec: the Shot Result (built by the simulator library in the
  program): the counts of all the samples.
\<close>

definition tally :: "string list \<Rightarrow> counts_dict" where
  "tally samples = fold record_outcome samples []"

text \<open>
  Modelled from the spec: the contract from a circuit to its Outcome Distribution (section
  9 of the specification; the simulator library in the program). Only the gates and the
  measured qubits of the circuit are read: a barrier has no part in it.
\<close>

definition circuit_distribution :: "circuit \<Rightarrow> py_error + (string \<times> real) list" where
  "circuit_distribution c =
     (case evolve (num_qubits c) (gates_of c) of
        Inl e \<Rightarrow> Inl e
      | Inr \<psi> \<Rightarrow> Inr (outcome_distribution \<psi> (measured_qubits c)))"

text \<open>
  Modelled from the spec: the simulator as a whole, in place of the simulator library of
  the program: the distribution of the circuit, sampled \<open>shots\<close> times and counted.
\<close>

definition statevector_simulator :: "(nat \<Rightarrow> nat \<Rightarrow> real) \<Rightarrow> nat \<Rightarrow> simulator" where
  "statevector_simulator rng seed c shots =
     (case circuit_distribution c of
        Inl e \<Rightarrow> Inl e
      | Inr distr \<Rightarrow> Inr (tally (sample_shots rng seed distr shots)))"

section \<open>Product states\<close>

text \<open>
  A register in which every qubit has its own state, independent of the others, has the
  amplitude of basis state \<open>k\<close> equal to the product over the qubits \<open>i\<close> of the
  amplitude \<open>f i (bit k i)\<close> of qubit \<open>i\<close>. The states the algorithm passes through
  are all of this form, which is how they are followed gate by gate below.
\<close>

definition product_state :: "nat \<Rightarrow> (nat \<Rightarrow> bool \<Rightarrow> complex) \<Rightarrow> statevector" where
  "product_state nq f = map (\<lambda>k. \<Prod>i<nq. f i (bit k i)) [0..<2 ^ nq]"

definition x_factor :: "(bool \<Rightarrow> complex) \<Rightarrow> bool \<Rightarrow> complex" where
  "x_factor g b = g (\<not> b)"

definition h_factor :: "(bool \<Rightarrow> complex) \<Rightarrow> bool \<Rightarrow> complex" where
  "h_factor g b = (if b then g False - g True else g False + g True) / complex_of_real (sqrt 2)"

definition z_factor :: "(bool \<Rightarrow> complex) \<Rightarrow> bool \<Rightarrow> complex" where
  "z_factor g b = (if b then - g b else g b)"

definition zero_factor :: "bool \<Rightarrow> complex" where
  "zero_factor b = (if b then 0 else 1)"

definition bv_factor :: "nat list \<Rightarrow> nat \<Rightarrow> nat \<Rightarrow> bool \<Rightarrow> complex" where
  "bv_factor ones n i b =
     (if i = n then (if b then - 1 else 1) / complex_of_real (sqrt 2)
      else if b = (i \<in> set ones) then 1 else 0)"

definition binary_form :: "string \<Rightarrow> string" where
  "binary_form s = map (\<lambda>c. if c = CHR ''1'' then CHR ''1'' else CHR ''0'') s"

definition secret_value :: "string \<Rightarrow> nat" where
  "secret_value s = horner_sum of_bool 2 (map (\<lambda>c. c = CHR ''1'') (rev s))"

text \<open>
  The circuit that \<open>bernstein_vazirani_circuit\<close> is shown below to return for a secret of
  at least one character, written out.
\<close>

definition assembled_circuit :: "string \<Rightarrow> circuit" where
  "assembled_circuit s =
     \<lparr>num_qubits = length s + 1, num_clbits = length s,
      data = [Gate (PauliX (length s)), Gate (Hadamard (length s))]
             @ map (\<lambda>q. Gate (Hadamard q)) [0..<length s]
             @ [Barrier [0..<length s + 1]]
             @ data (create_oracle s)
             @ [Barrier [0..<length s + 1]]
             @ map (\<lambda>q. Gate (Hadamard q)) [0..<length s]
             @ map (\<lambda>q. Measure q q) [0..<length s]\<rparr>"

section \<open>Inputs used in the examples\<close>

text \<open>
  A random source whose every variate is 0, one whose variates depend on the seed (0 for
  an even seed, one half for an odd one), a circuit that measures one qubit after a
  Hadamard gate, and two simulators with a fixed answer.
\<close>

definition zero_rng :: "nat \<Rightarrow> nat \<Rightarrow> real" where
  "zero_rng seed i = 0"

definition parity_rng :: "nat \<Rightarrow> nat \<Rightarrow> real" where
  "parity_rng seed i = (if even seed then 0 else 1 / 2)"


definition failing_simulator :: simulator where
  "failing_simulator c shots = Inl SimulatorError"

definition fixed_simulator :: "counts_dict \<Rightarrow> simulator" where
  "fixed_simulator cnts c shots = Inr cnts"

section \<open>The oracle and the assembled circuit\<close>

lemma data_append_instruction [simp]: "data (append_instruction c i) = data c @ [i]"
  by (simp add: append_instruction_def)

lemma num_qubits_append_instruction [simp]:
  "num_qubits (append_instruction c i) = num_qubits c"
  by (simp add: append_instruction_def)

lemma num_clbits_append_instruction [simp]:
  "num_clbits (append_instruction c i) = num_clbits c"
  by (simp add: append_instruction_def)

lemma oracle_fold_data:
  "data (fold (\<lambda>(i, bit) acc. if bit = CHR ''1'' then qc_cx acc i n else acc) ps c)
     = data c @ map (\<lambda>p. Gate (ControlledNot (fst p) n)) (filter (\<lambda>p. snd p = CHR ''1'') ps)"
  by (induction ps arbitrary: c) (auto simp: qc_cx_def)

lemma oracle_fold_num_qubits:
  "num_qubits (fold (\<lambda>(i, bit) acc. if bit = CHR ''1'' then qc_cx acc i n else acc) ps c)
     = num_qubits c"
  by (induction ps arbitrary: c) (auto simp: qc_cx_def)

lemma zip_upt_nth: "zip [0..<length xs] xs = map (\<lambda>i. (i, xs ! i)) [0..<length xs]"
proof -
  have "zip [0..<length xs] xs = zip [0..<length xs] (map (\<lambda>i. xs ! i) [0..<length xs])"
    by (simp add: map_nth)
  also have "\<dots> = map (\<lambda>i. (i, xs ! i)) [0..<length xs]"
    by (simp only: zip_map2 zip_same_conv_map) simp
  finally show ?thesis .
qed

lemma filter_enumerate_ones:
  "map fst (filter (\<lambda>p. snd p = c) (enumerate 0 xs))
     = filter (\<lambda>i. xs ! i = c) [0..<length xs]"
  by (simp add: enumerate_eq_zip zip_upt_nth filter_map comp_def)

lemma data_create_oracle:
  "data (create_oracle s) = map (\<lambda>i. Gate (ControlledNot i (length s))) (one_positions s)"
proof -
  have "map (\<lambda>p. Gate (ControlledNot (fst p) (length s)))
            (filter (\<lambda>p. snd p = CHR ''1'') (enumerate 0 (rev s)))
          = map (\<lambda>i. Gate (ControlledNot i (length s)))
              (map fst (filter (\<lambda>p. snd p = CHR ''1'') (enumerate 0 (rev s))))"
    by simp
  also have "\<dots> = map (\<lambda>i. Gate (ControlledNot i (length s))) (one_positions s)"
    by (simp only: filter_enumerate_ones one_positions_def length_rev)
  finally show ?thesis
    by (simp add: create_oracle_def Let_def oracle_fold_data QuantumCircuit_def)
qed

lemma num_qubits_create_oracle: "num_qubits (create_oracle s) = length s + 1"
  by (simp add: create_oracle_def Let_def oracle_fold_num_qubits QuantumCircuit_def)

lemma gates_of_create_oracle:
  "gates_of (create_oracle s) = map (\<lambda>i. ControlledNot i (length s)) (one_positions s)"
  by (simp add: gates_of_def data_create_oracle comp_def)

lemma fold_qc_h_data:
  "data (fold (\<lambda>q acc. qc_h acc q) qs c) = data c @ map (\<lambda>q. Gate (Hadamard q)) qs"
  by (induction qs arbitrary: c) (simp_all add: qc_h_def)

lemma fold_qc_h_num_qubits: "num_qubits (fold (\<lambda>q acc. qc_h acc q) qs c) = num_qubits c"
  by (induction qs arbitrary: c) (simp_all add: qc_h_def)

lemma fold_qc_h_num_clbits: "num_clbits (fold (\<lambda>q acc. qc_h acc q) qs c) = num_clbits c"
  by (induction qs arbitrary: c) (simp_all add: qc_h_def)

lemma qc_h_register_nonempty:
  "qs \<noteq> [] \<Longrightarrow> qc_h_register c qs = Inr (fold (\<lambda>q acc. qc_h acc q) qs c)"
  by (simp add: qc_h_register_def)

lemma qc_measure_data:
  "data (qc_measure c qs cs) = data c @ map (\<lambda>(q, b). Measure q b) (zip qs cs)"
proof -
  have "data (fold (\<lambda>(q, b) acc. append_instruction acc (Measure q b)) ps c)
          = data c @ map (\<lambda>(q, b). Measure q b) ps"
    for ps by (induction ps arbitrary: c) auto
  then show ?thesis by (simp add: qc_measure_def)
qed

lemma qc_measure_num_qubits: "num_qubits (qc_measure c qs cs) = num_qubits c"
proof -
  have "num_qubits (fold (\<lambda>(q, b) acc. append_instruction acc (Measure q b)) ps c) = num_qubits c"
    for ps by (induction ps arbitrary: c) auto
  then show ?thesis by (simp add: qc_measure_def)
qed

lemma qc_measure_num_clbits: "num_clbits (qc_measure c qs cs) = num_clbits c"
proof -
  have "num_clbits (fold (\<lambda>(q, b) acc. append_instruction acc (Measure q b)) ps c) = num_clbits c"
    for ps by (induction ps arbitrary: c) auto
  then show ?thesis by (simp add: qc_measure_def)
qed

lemma qc_compose_counts:
  "num_qubits (qc_compose c other qs) = num_qubits c"
  "num_clbits (qc_compose c other qs) = num_clbits c"
  by (simp_all add: qc_compose_def)

lemma qc_simple_counts:
  "num_qubits (qc_x c q) = num_qubits c" "num_clbits (qc_x c q) = num_clbits c"
  "num_qubits (qc_h c q) = num_qubits c" "num_clbits (qc_h c q) = num_clbits c"
  "num_qubits (qc_barrier c) = num_qubits c" "num_clbits (qc_barrier c) = num_clbits c"
  by (simp_all add: qc_x_def qc_h_def qc_barrier_def)

lemmas qc_counts = qc_simple_counts qc_compose_counts qc_measure_num_qubits
  qc_measure_num_clbits fold_qc_h_num_qubits fold_qc_h_num_clbits

lemma one_positions_less: "i \<in> set (one_positions s) \<Longrightarrow> i < length s"
  by (simp add: one_positions_def)

lemma remap_oracle_identity:
  "map (remap_instruction (\<lambda>j. [0..<length s + 1] ! j)) (data (create_oracle s))
     = data (create_oracle s)"
proof -
  have "remap_instruction (\<lambda>j. [0..<length s + 1] ! j) (Gate (ControlledNot i (length s)))
          = Gate (ControlledNot i (length s))" if "i \<in> set (one_positions s)" for i
  proof -
    from that have "i < length s + 1" by (simp add: one_positions_def)
    then have "[0..<length s + 1] ! i = i" by (simp only: nth_upt add_0)
    moreover have "[0..<length s + 1] ! length s = length s"
      by (simp only: nth_upt add_0 less_add_one)
    ultimately show ?thesis by simp
  qed
  then show ?thesis
    by (simp add: data_create_oracle)
qed

lemma zip_upt_same: "zip [0..<n] [0..<n] = map (\<lambda>i. (i, i)) [0..<n]"
  by (simp add: zip_same_conv_map)

lemma data_assembled_circuit:
  "data (assembled_circuit s) =
     [Gate (PauliX (length s)), Gate (Hadamard (length s))]
     @ map (\<lambda>q. Gate (Hadamard q)) [0..<length s]
     @ [Barrier [0..<length s + 1]]
     @ data (create_oracle s)
     @ [Barrier [0..<length s + 1]]
     @ map (\<lambda>q. Gate (Hadamard q)) [0..<length s]
     @ map (\<lambda>q. Measure q q) [0..<length s]"
  by (simp add: assembled_circuit_def)

lemma num_qubits_assembled_circuit: "num_qubits (assembled_circuit s) = length s + 1"
  by (simp add: assembled_circuit_def)

lemma num_clbits_assembled_circuit: "num_clbits (assembled_circuit s) = length s"
  by (simp add: assembled_circuit_def)

lemma bernstein_vazirani_circuit_empty: "bernstein_vazirani_circuit [] = Inl CircuitError"
  by (simp add: bernstein_vazirani_circuit_def qc_h_register_def)

lemma bernstein_vazirani_circuit_nonempty:
  assumes "s \<noteq> []"
  shows "bernstein_vazirani_circuit s = Inr (assembled_circuit s)"
proof -
  define c2 where
    "c2 = qc_h (qc_x (QuantumCircuit (length [0..<length s] + length [length s])
                        (length [0..<length s])) (hd [length s])) (hd [length s])"
  define c3 where "c3 = fold (\<lambda>q acc. qc_h acc q) [0..<length s] c2"
  define c6 where
    "c6 = qc_barrier (qc_compose (qc_barrier c3) (create_oracle s) [0..<length s + 1])"
  define c7 where "c7 = fold (\<lambda>q acc. qc_h acc q) [0..<length s] c6"
  define c8 where "c8 = qc_measure c7 [0..<length s] [0..<length s]"
  have ne: "[0..<length s] \<noteq> []"
    using assms by simp
  have built: "bernstein_vazirani_circuit s = Inr c8"
    unfolding bernstein_vazirani_circuit_def Let_def
    by (simp only: qc_h_register_nonempty [OF ne] sum.case c2_def c3_def c6_def c7_def c8_def)
  have m: "map (\<lambda>(q, b). Measure q b) (zip [0..<n] [0..<n]) = map (\<lambda>q. Measure q q) [0..<n]"
    for n by (simp only: zip_upt_same) simp
  have c: "data (qc_compose c (create_oracle s) [0..<length s + 1]) = data c @ data (create_oracle s)"
    for c by (simp only: qc_compose_def remap_oracle_identity) simp
  have b: "data (qc_barrier c) = data c @ [Barrier [0..<num_qubits c]]" for c
    by (simp add: qc_barrier_def)
  have x: "data (qc_x c q) = data c @ [Gate (PauliX q)]"
    and h: "data (qc_h c q) = data c @ [Gate (Hadamard q)]" for c q
    by (simp_all add: qc_x_def qc_h_def)
  have q: "data (QuantumCircuit a b) = []" "num_qubits (QuantumCircuit a b) = a"
    "num_clbits (QuantumCircuit a b) = b" for a b
    by (simp_all add: QuantumCircuit_def)
  have "data c8 = data (assembled_circuit s)"
    unfolding c8_def c7_def c6_def c3_def c2_def data_assembled_circuit
    by (simp only: qc_measure_data fold_qc_h_data m c b x h q qc_counts) simp
  moreover have "num_qubits c8 = num_qubits (assembled_circuit s)"
    unfolding c8_def c7_def c6_def c3_def c2_def num_qubits_assembled_circuit
    by (simp only: qc_counts q) simp
  moreover have "num_clbits c8 = num_clbits (assembled_circuit s)"
    unfolding c8_def c7_def c6_def c3_def c2_def num_clbits_assembled_circuit
    by (simp only: qc_counts q) simp
  ultimately have "c8 = assembled_circuit s"
    by simp
  with built show ?thesis
    by simp
qed

lemma bernstein_vazirani_circuit_valid:
  "validate_binary_string s \<Longrightarrow> bernstein_vazirani_circuit s = Inr (assembled_circuit s)"
  by (rule bernstein_vazirani_circuit_nonempty) (auto simp: validate_binary_string_def)

lemma concat_map_Gate: "concat (map (\<lambda>i. case i of Gate g \<Rightarrow> [g] | _ \<Rightarrow> []) (map Gate gs)) = gs"
  by (induction gs) simp_all

lemma concat_map_Measure_gates:
  "concat (map (\<lambda>i. case i of Gate g \<Rightarrow> [g] | _ \<Rightarrow> []) (map (\<lambda>q. Measure q q) qs)) = []"
  by (induction qs) simp_all

lemma gates_of_assembled_circuit:
  "gates_of (assembled_circuit s) =
     [PauliX (length s), Hadamard (length s)]
     @ map Hadamard [0..<length s]
     @ map (\<lambda>i. ControlledNot i (length s)) (one_positions s)
     @ map Hadamard [0..<length s]"
proof -
  have h: "map (\<lambda>q. Gate (Hadamard q)) qs = map Gate (map Hadamard qs)" for qs
    by simp
  have o: "data (create_oracle s) = map Gate (map (\<lambda>i. ControlledNot i (length s)) (one_positions s))"
    by (simp add: data_create_oracle)
  show ?thesis
    unfolding gates_of_def data_assembled_circuit
    by (simp only: h o map_append concat_append concat_map_Gate concat_map_Measure_gates)
      simp
qed

lemma measured_qubits_assembled_circuit:
  "measured_qubits (assembled_circuit s) = [0..<length s]"
proof -
  have g: "concat (map (\<lambda>i. case i of Measure q b \<Rightarrow> [q] | _ \<Rightarrow> []) (map Gate gs)) = []" for gs
    by (induction gs) simp_all
  have m: "concat (map (\<lambda>i. case i of Measure q b \<Rightarrow> [q] | _ \<Rightarrow> []) (map (\<lambda>q. Measure q q) qs)) = qs"
    for qs by (induction qs) simp_all
  have h: "map (\<lambda>q. Gate (Hadamard q)) qs = map Gate (map Hadamard qs)" for qs
    by simp
  have o: "data (create_oracle s) = map Gate (map (\<lambda>i. ControlledNot i (length s)) (one_positions s))"
    by (simp add: data_create_oracle)
  show ?thesis
    unfolding measured_qubits_def data_assembled_circuit
    by (simp only: h o map_append concat_append g m) simp
qed

lemma validate_binary_string_iff:
  "validate_binary_string s \<longleftrightarrow> s \<noteq> [] \<and> (\<forall>c \<in> set s. c = CHR ''0'' \<or> c = CHR ''1'')"
  by (auto simp: validate_binary_string_def list_all_iff)

lemma one_positions_nth:
  "one_positions s = filter (\<lambda>i. s ! (length s - 1 - i) = CHR ''1'') [0..<length s]"
  unfolding one_positions_def
  by (rule filter_cong [OF refl]) (simp add: rev_nth)

lemma one_positions_all_zero: "\<forall>c \<in> set s. c = CHR ''0'' \<Longrightarrow> one_positions s = []"
proof -
  assume z: "\<forall>c \<in> set s. c = CHR ''0''"
  have "rev s ! i \<noteq> CHR ''1''" if "i < length s" for i
  proof -
    from that have "rev s ! i \<in> set (rev s)" by (simp only: nth_mem length_rev)
    then have "rev s ! i \<in> set s" by simp
    with z have "rev s ! i = CHR ''0''" by blast
    then show ?thesis by simp
  qed
  then show ?thesis
    unfolding one_positions_def filter_empty_conv by simp
qed


section \<open>Gates on product states and the final state of the circuit\<close>

lemma bit_flip_bit_nat: "bit (flip_bit t (k::nat)) i = (if i = t then \<not> bit k t else bit k i)"
  by (auto simp: bit_flip_bit_iff)

lemma flip_bit_less:
  assumes "t < nq" and "k < 2 ^ nq"
  shows "flip_bit t k < (2::nat) ^ nq"
proof -
  have "take_bit nq k = k"
    using assms by (simp add: take_bit_nat_eq_self_iff)
  moreover have "take_bit nq (flip_bit t k) = flip_bit t (take_bit nq k)"
    using assms by (simp add: take_bit_flip_bit_eq)
  ultimately have "take_bit nq (flip_bit t k) = flip_bit t k"
    by simp
  then show ?thesis
    by (simp add: take_bit_nat_eq_self_iff)
qed

lemma flip_bit_flip_bit_nat: "flip_bit t (flip_bit t (k::nat)) = k"
  by (rule bit_eqI) (simp add: bit_flip_bit_nat)

lemma length_product_state [simp]: "length (product_state nq f) = 2 ^ nq"
  by (simp add: product_state_def)

lemma nth_product_state:
  "k < 2 ^ nq \<Longrightarrow> product_state nq f ! k = (\<Prod>i<nq. f i (bit k i))"
  by (simp add: product_state_def)

lemma product_state_cong:
  "(\<And>i b. i < nq \<Longrightarrow> f i b = g i b) \<Longrightarrow> product_state nq f = product_state nq g"
  by (simp add: product_state_def)

lemma prod_split_factor:
  fixes g :: "nat \<Rightarrow> complex"
  assumes "t < nq"
  shows "(\<Prod>i<nq. g i) = g t * (\<Prod>i\<in>{..<nq} - {t}. g i)"
  using assms by (simp add: prod.remove)

lemma nth_product_state_split:
  assumes "t < nq" and "k < 2 ^ nq"
  shows "product_state nq f ! k = f t (bit k t) * (\<Prod>i\<in>{..<nq} - {t}. f i (bit k i))"
  using assms by (simp add: nth_product_state prod_split_factor [of t nq])

lemma nth_product_state_flip:
  assumes "t < nq" and "k < 2 ^ nq"
  shows "product_state nq f ! flip_bit t k
           = f t (\<not> bit k t) * (\<Prod>i\<in>{..<nq} - {t}. f i (bit k i))"
proof -
  have "product_state nq f ! flip_bit t k
          = f t (bit (flip_bit t k) t) * (\<Prod>i\<in>{..<nq} - {t}. f i (bit (flip_bit t k) i))"
    using assms by (simp only: nth_product_state_split flip_bit_less)
  also have "(\<Prod>i\<in>{..<nq} - {t}. f i (bit (flip_bit t k) i)) = (\<Prod>i\<in>{..<nq} - {t}. f i (bit k i))"
    by (rule prod.cong) (simp_all add: bit_flip_bit_nat)
  finally show ?thesis
    by (simp add: bit_flip_bit_nat)
qed

lemma prod_fun_upd_split:
  fixes f :: "nat \<Rightarrow> bool \<Rightarrow> complex"
  assumes "t < nq"
  shows "(\<Prod>i<nq. (f(t := g)) i (bit k i)) = g (bit k t) * (\<Prod>i\<in>{..<nq} - {t}. f i (bit k i))"
proof -
  have "(\<Prod>i<nq. (f(t := g)) i (bit k i))
          = (f(t := g)) t (bit k t) * (\<Prod>i\<in>{..<nq} - {t}. (f(t := g)) i (bit k i))"
    using assms by (rule prod_split_factor)
  also have "(\<Prod>i\<in>{..<nq} - {t}. (f(t := g)) i (bit k i)) = (\<Prod>i\<in>{..<nq} - {t}. f i (bit k i))"
    by (rule prod.cong) simp_all
  finally show ?thesis by simp
qed

lemma nth_product_state_upd:
  assumes "t < nq" and "k < 2 ^ nq"
  shows "product_state nq (f(t := g)) ! k = g (bit k t) * (\<Prod>i\<in>{..<nq} - {t}. f i (bit k i))"
  using assms by (simp only: nth_product_state prod_fun_upd_split)

lemma product_state_eqI:
  assumes "length \<psi> = 2 ^ nq"
    and "\<And>k. k < 2 ^ nq \<Longrightarrow> \<psi> ! k = product_state nq f ! k"
  shows "\<psi> = product_state nq f"
  using assms by (intro nth_equalityI) simp_all

lemma length_apply_gate [simp]: "length (apply_gate g \<psi>) = length \<psi>"
  by (cases g) simp_all

lemma apply_PauliX_product_state:
  assumes "t < nq"
  shows "apply_gate (PauliX t) (product_state nq f) = product_state nq (f(t := x_factor (f t)))"
proof (rule product_state_eqI)
  fix k :: nat assume k: "k < 2 ^ nq"
  have "apply_gate (PauliX t) (product_state nq f) ! k = product_state nq f ! flip_bit t k"
    using k by simp
  also have "\<dots> = x_factor (f t) (bit k t) * (\<Prod>i\<in>{..<nq} - {t}. f i (bit k i))"
    using assms k by (simp only: nth_product_state_flip x_factor_def)
  also have "\<dots> = product_state nq (f(t := x_factor (f t))) ! k"
    using assms k by (simp only: nth_product_state_upd)
  finally show "apply_gate (PauliX t) (product_state nq f) ! k
                  = product_state nq (f(t := x_factor (f t))) ! k" .
qed simp

lemma apply_Hadamard_product_state:
  assumes "t < nq"
  shows "apply_gate (Hadamard t) (product_state nq f) = product_state nq (f(t := h_factor (f t)))"
proof (rule product_state_eqI)
  fix k :: nat assume k: "k < 2 ^ nq"
  define P where "P = (\<Prod>i\<in>{..<nq} - {t}. f i (bit k i))"
  have a: "product_state nq f ! k = f t (bit k t) * P"
    using assms k unfolding P_def by (rule nth_product_state_split)
  have b: "product_state nq f ! flip_bit t k = f t (\<not> bit k t) * P"
    using assms k unfolding P_def by (rule nth_product_state_flip)
  have "apply_gate (Hadamard t) (product_state nq f) ! k
          = (if bit k t
             then (product_state nq f ! flip_bit t k - product_state nq f ! k) / complex_of_real (sqrt 2)
             else (product_state nq f ! k + product_state nq f ! flip_bit t k) / complex_of_real (sqrt 2))"
    using k by simp
  also have "\<dots> = h_factor (f t) (bit k t) * P"
    by (simp add: a b h_factor_def algebra_simps diff_divide_distrib add_divide_distrib)
  also have "\<dots> = product_state nq (f(t := h_factor (f t))) ! k"
    using assms k unfolding P_def by (simp only: nth_product_state_upd)
  finally show "apply_gate (Hadamard t) (product_state nq f) ! k
                  = product_state nq (f(t := h_factor (f t))) ! k" .
qed simp

lemma apply_ControlledNot_product_state:
  assumes "c < nq" and "t < nq" and "c \<noteq> t" and anti: "\<And>b. f t (\<not> b) = - f t b"
  shows "apply_gate (ControlledNot c t) (product_state nq f)
           = product_state nq (f(c := z_factor (f c)))"
proof (rule product_state_eqI)
  fix k :: nat assume k: "k < 2 ^ nq"
  have flip: "product_state nq f ! flip_bit t k = - (product_state nq f ! k)"
    using assms(2) k
    by (simp add: nth_product_state_flip nth_product_state_split [of t nq] anti)
  have "apply_gate (ControlledNot c t) (product_state nq f) ! k
          = (if bit k c then product_state nq f ! flip_bit t k else product_state nq f ! k)"
    using k by simp
  also have "\<dots> = z_factor (f c) (bit k c) * (\<Prod>i\<in>{..<nq} - {c}. f i (bit k i))"
    using assms(1) k by (simp add: flip nth_product_state_split [of c nq] z_factor_def)
  also have "\<dots> = product_state nq (f(c := z_factor (f c))) ! k"
    using assms(1) k by (simp only: nth_product_state_upd)
  finally show "apply_gate (ControlledNot c t) (product_state nq f) ! k
                  = product_state nq (f(c := z_factor (f c))) ! k" .
qed simp

lemma run_gates_append: "run_gates (a @ b) \<psi> = run_gates b (run_gates a \<psi>)"
  by (simp add: run_gates_def)

lemma run_gates_Cons: "run_gates (g # gs) \<psi> = run_gates gs (apply_gate g \<psi>)"
  by (simp add: run_gates_def)

lemma run_gates_Nil: "run_gates [] \<psi> = \<psi>"
  by (simp add: run_gates_def)

lemma length_run_gates [simp]: "length (run_gates gs \<psi>) = length \<psi>"
  by (induction gs arbitrary: \<psi>) (simp_all add: run_gates_Nil run_gates_Cons)

lemma nat_has_bit_below:
  assumes "k < 2 ^ nq" and "k \<noteq> 0"
  shows "\<exists>i<nq. bit (k::nat) i"
proof (rule ccontr)
  assume "\<not> (\<exists>i<nq. bit k i)"
  then have "take_bit nq k = 0"
    by (intro bit_eqI) (simp add: bit_take_bit_iff)
  moreover have "take_bit nq k = k"
    using assms(1) by (simp add: take_bit_nat_eq_self_iff)
  ultimately show False
    using assms(2) by simp
qed

lemma initial_state_product: "initial_state nq = product_state nq (\<lambda>i. zero_factor)"
proof (rule product_state_eqI)
  fix k :: nat assume k: "k < 2 ^ nq"
  have "(\<Prod>i<nq. zero_factor (bit k i)) = (if k = 0 then 1 else 0)"
  proof (cases "k = 0")
    case True
    then show ?thesis by (simp add: zero_factor_def)
  next
    case False
    with k obtain i where "i < nq" and "bit k i"
      using nat_has_bit_below by blast
    then have "\<exists>i\<in>{..<nq}. zero_factor (bit k i) = 0"
      by (auto simp: zero_factor_def)
    then have "(\<Prod>i<nq. zero_factor (bit k i)) = 0"
      by (simp only: prod_zero_iff finite_lessThan)
    with False show ?thesis by simp
  qed
  then show "initial_state nq ! k = product_state nq (\<lambda>i. zero_factor) ! k"
    using k by (simp add: initial_state_def nth_product_state)
qed (simp add: initial_state_def)

lemma Hadamard_layer:
  assumes "distinct ts" and "\<forall>t\<in>set ts. t < nq"
  shows "run_gates (map Hadamard ts) (product_state nq f)
           = product_state nq (\<lambda>i. if i \<in> set ts then h_factor (f i) else f i)"
  using assms
proof (induction ts arbitrary: f)
  case Nil
  then show ?case by (simp add: run_gates_Nil)
next
  case (Cons t ts)
  have "apply_gate (Hadamard t) (product_state nq f) = product_state nq (f(t := h_factor (f t)))"
    using Cons.prems by (intro apply_Hadamard_product_state) simp
  then have "run_gates (map Hadamard (t # ts)) (product_state nq f)
          = run_gates (map Hadamard ts) (product_state nq (f(t := h_factor (f t))))"
    by (simp only: list.map run_gates_Cons)
  also have "\<dots> = product_state nq
      (\<lambda>i. if i \<in> set ts then h_factor ((f(t := h_factor (f t))) i) else (f(t := h_factor (f t))) i)"
    using Cons.prems by (intro Cons.IH) simp_all
  also have "\<dots> = product_state nq (\<lambda>i. if i \<in> set (t # ts) then h_factor (f i) else f i)"
    using Cons.prems by (intro product_state_cong) auto
  finally show ?case .
qed

lemma oracle_layer:
  assumes "distinct cs" and "\<forall>c\<in>set cs. c < nq \<and> c \<noteq> t" and "t < nq"
    and "\<And>b. f t (\<not> b) = - f t b"
  shows "run_gates (map (\<lambda>c. ControlledNot c t) cs) (product_state nq f)
           = product_state nq (\<lambda>i. if i \<in> set cs then z_factor (f i) else f i)"
  using assms
proof (induction cs arbitrary: f)
  case Nil
  then show ?case by (simp add: run_gates_Nil)
next
  case (Cons c cs)
  have anti: "(f(c := z_factor (f c))) t (\<not> b) = - (f(c := z_factor (f c))) t b" for b
    using Cons.prems by simp
  have "apply_gate (ControlledNot c t) (product_state nq f)
          = product_state nq (f(c := z_factor (f c)))"
    using Cons.prems by (intro apply_ControlledNot_product_state) simp_all
  then have "run_gates (map (\<lambda>c. ControlledNot c t) (c # cs)) (product_state nq f)
          = run_gates (map (\<lambda>c. ControlledNot c t) cs) (product_state nq (f(c := z_factor (f c))))"
    by (simp only: list.map run_gates_Cons)
  also have "\<dots> = product_state nq
      (\<lambda>i. if i \<in> set cs then z_factor ((f(c := z_factor (f c))) i) else (f(c := z_factor (f c))) i)"
    using Cons.prems anti by (intro Cons.IH) simp_all
  also have "\<dots> = product_state nq (\<lambda>i. if i \<in> set (c # cs) then z_factor (f i) else f i)"
    using Cons.prems by (intro product_state_cong) auto
  finally show ?case .
qed

lemma distinct_one_positions: "distinct (one_positions s)"
  by (simp add: one_positions_def)

lemma sqrt2_sq: "complex_of_real (sqrt 2) * complex_of_real (sqrt 2) = 2"
  by (metis of_real_mult of_real_numeral real_sqrt_mult_self abs_numeral)

lemma bv_final_state:
  "run_gates (gates_of (assembled_circuit s)) (initial_state (length s + 1))
     = product_state (length s + 1) (bv_factor (one_positions s) (length s))"
proof -
  define n where "n = length s"
  define ones where "ones = one_positions s"
  define r where "r = complex_of_real (sqrt 2)"
  have r: "r * r = 2" "r \<noteq> 0"
    using sqrt2_sq by (auto simp: r_def)
  have ones: "distinct ones" "\<forall>c\<in>set ones. c < n + 1 \<and> c \<noteq> n"
    using one_positions_less [of _ s] by (fastforce simp: ones_def n_def distinct_one_positions)+
  define f1 where "f1 = (\<lambda>i::nat. if i = n then (\<lambda>b. (if b then - 1 else 1) / r) else zero_factor)"
  define f2 where "f2 = (\<lambda>i::nat. if i = n then (\<lambda>b. (if b then - 1 else 1) / r) else (\<lambda>b. 1 / r))"
  define f3 where "f3 = (\<lambda>i::nat. if i = n then (\<lambda>b. (if b then - 1 else 1) / r)
                          else if i \<in> set ones then (\<lambda>b. (if b then - 1 else 1) / r) else (\<lambda>b. 1 / r))"
  have s1: "run_gates [PauliX n, Hadamard n] (initial_state (n + 1)) = product_state (n + 1) f1"
  proof -
    have "run_gates [PauliX n, Hadamard n] (initial_state (n + 1))
            = product_state (n + 1)
                (((\<lambda>i. zero_factor)(n := x_factor zero_factor))
                   (n := h_factor (((\<lambda>i. zero_factor)(n := x_factor zero_factor)) n)))"
      by (simp only: run_gates_Cons run_gates_Nil initial_state_product
          apply_PauliX_product_state apply_Hadamard_product_state less_add_one)
    also have "\<dots> = product_state (n + 1) f1"
      by (intro product_state_cong)
        (auto simp: f1_def h_factor_def x_factor_def zero_factor_def r_def)
    finally show ?thesis .
  qed
  have s2: "run_gates (map Hadamard [0..<n]) (product_state (n + 1) f1) = product_state (n + 1) f2"
  proof -
    have "run_gates (map Hadamard [0..<n]) (product_state (n + 1) f1)
            = product_state (n + 1) (\<lambda>i. if i \<in> set [0..<n] then h_factor (f1 i) else f1 i)"
      by (intro Hadamard_layer) simp_all
    also have "\<dots> = product_state (n + 1) f2"
      by (intro product_state_cong)
        (auto simp: f1_def f2_def h_factor_def zero_factor_def r_def)
    finally show ?thesis .
  qed
  have s3: "run_gates (map (\<lambda>c. ControlledNot c n) ones) (product_state (n + 1) f2)
              = product_state (n + 1) f3"
  proof -
    have "run_gates (map (\<lambda>c. ControlledNot c n) ones) (product_state (n + 1) f2)
            = product_state (n + 1) (\<lambda>i. if i \<in> set ones then z_factor (f2 i) else f2 i)"
      using ones by (intro oracle_layer) (simp_all add: f2_def)
    also have "\<dots> = product_state (n + 1) f3"
      using ones by (intro product_state_cong) (auto simp: f2_def f3_def z_factor_def)
    finally show ?thesis .
  qed
  have s4: "run_gates (map Hadamard [0..<n]) (product_state (n + 1) f3)
              = product_state (n + 1) (bv_factor ones n)"
  proof -
    have "run_gates (map Hadamard [0..<n]) (product_state (n + 1) f3)
            = product_state (n + 1) (\<lambda>i. if i \<in> set [0..<n] then h_factor (f3 i) else f3 i)"
      by (intro Hadamard_layer) simp_all
    also have "\<dots> = product_state (n + 1) (bv_factor ones n)"
    proof (intro product_state_cong)
      fix i b assume "i < n + 1"
      have "2 / r = r"
        using r by (simp add: field_simps)
      with r show "(if i \<in> set [0..<n] then h_factor (f3 i) else f3 i) b = bv_factor ones n i b"
        using \<open>i < n + 1\<close> by (auto simp: f3_def h_factor_def bv_factor_def r_def [symmetric])
    qed
    finally show ?thesis .
  qed
  show ?thesis
    unfolding gates_of_assembled_circuit n_def [symmetric] ones_def [symmetric]
    by (simp only: run_gates_append s1 s2 s3 s4)
qed

lemma binary_form_valid:
  assumes "validate_binary_string s"
  shows "binary_form s = s"
  unfolding binary_form_def
proof (rule map_idI)
  fix c assume "c \<in> set s"
  with assms have "c = CHR ''0'' \<or> c = CHR ''1''"
    unfolding validate_binary_string_iff by blast
  then show "(if c = CHR ''1'' then CHR ''1'' else CHR ''0'') = c"
    by (elim disjE) simp_all
qed

lemma mem_one_positions: "i \<in> set (one_positions s) \<longleftrightarrow> i < length s \<and> rev s ! i = CHR ''1''"
  by (auto simp: one_positions_def)

lemma binary_form_rev:
  "binary_form s = rev (map (\<lambda>j. if rev s ! j = CHR ''1'' then CHR ''1'' else CHR ''0'') [0..<length s])"
proof -
  have "map (\<lambda>j. if rev s ! j = CHR ''1'' then CHR ''1'' else CHR ''0'') [0..<length s]
          = map (\<lambda>c. if c = CHR ''1'' then CHR ''1'' else CHR ''0'') (map (\<lambda>j. rev s ! j) [0..<length (rev s)])"
    by (simp add: comp_def)
  also have "\<dots> = map (\<lambda>c. if c = CHR ''1'' then CHR ''1'' else CHR ''0'') (rev s)"
    by (simp only: map_nth)
  finally show ?thesis
    by (simp add: binary_form_def rev_map)
qed

lemma outcome_bitstring_eq_iff:
  "outcome_bitstring (length s) a = binary_form s
     \<longleftrightarrow> (\<forall>i<length s. bit a i = (i \<in> set (one_positions s)))"
proof -
  have "outcome_bitstring (length s) a
          = rev (map (\<lambda>j. if bit a j then CHR ''1'' else CHR ''0'') [0..<length s])"
    by (simp add: outcome_bitstring_def rev_map)
  then have "outcome_bitstring (length s) a = binary_form s
     \<longleftrightarrow> map (\<lambda>j. if bit a j then CHR ''1'' else CHR ''0'') [0..<length s]
          = map (\<lambda>j. if rev s ! j = CHR ''1'' then CHR ''1'' else CHR ''0'') [0..<length s]"
    by (simp only: binary_form_rev rev_is_rev_conv)
  also have "\<dots> \<longleftrightarrow> (\<forall>i<length s. bit a i = (rev s ! i = CHR ''1''))"
    by (auto simp: map_eq_conv split: if_splits)
  also have "\<dots> \<longleftrightarrow> (\<forall>i<length s. bit a i = (i \<in> set (one_positions s)))"
    by (simp add: mem_one_positions)
  finally show ?thesis .
qed

lemma secret_value_less: "secret_value s < 2 ^ length s"
  using horner_sum_of_bool_2_less [of "map (\<lambda>c. c = CHR ''1'') (rev s)", where ?'a = nat]
  by (simp add: secret_value_def)

lemma bit_secret_value: "bit (secret_value s) i \<longleftrightarrow> i \<in> set (one_positions s)"
  by (auto simp: secret_value_def bit_horner_sum_bit_iff mem_one_positions)

lemma outcome_bitstring_secret_value: "outcome_bitstring (length s) (secret_value s) = binary_form s"
  by (simp add: outcome_bitstring_eq_iff bit_secret_value)

lemma matches_upt: "matches [0..<n] a k \<longleftrightarrow> (\<forall>j<n. bit k j = bit a j)"
  by (auto simp: matches_def list_all_iff)

lemma matching_basis_states:
  fixes a :: nat
  assumes "a < 2 ^ n"
  shows "{k. k < 2 ^ (n + 1) \<and> (\<forall>j<n. bit k j = bit a j)} = {a, a + 2 ^ n}"
proof -
  have iff: "(\<forall>j<n. bit k j = bit a j) \<longleftrightarrow> k mod 2 ^ n = a" for k :: nat
  proof -
    have "(\<forall>j<n. bit k j = bit a j) \<longleftrightarrow> take_bit n k = take_bit n a"
      by (auto simp: bit_eq_iff [of "take_bit n k"] bit_take_bit_iff)
    also have "take_bit n a = a"
      using assms by (simp add: take_bit_nat_eq_self_iff)
    finally show ?thesis by (simp add: take_bit_eq_mod)
  qed
  have "k = a \<or> k = a + 2 ^ n" if "k < 2 ^ (n + 1)" and "k mod 2 ^ n = a" for k :: nat
  proof -
    have "k div 2 ^ n < 2"
      using that(1) by (simp add: less_mult_imp_div_less)
    then have "k div 2 ^ n = 0 \<or> k div 2 ^ n = 1" by arith
    moreover have "k = 2 ^ n * (k div 2 ^ n) + a"
      using mult_div_mod_eq [of "2 ^ n" k] that(2) by simp
    ultimately show ?thesis
      by auto
  qed
  moreover have "a < 2 ^ (n + 1)" "a mod 2 ^ n = a" "a + 2 ^ n < 2 ^ (n + 1)"
       "(a + 2 ^ n) mod 2 ^ n = a"
    using assms by simp_all
  ultimately show ?thesis
    unfolding iff by (intro set_eqI iffI) auto
qed

lemma bv_data_factors:
  "(\<forall>i<n. bit k i = (i \<in> set ones)) \<Longrightarrow> (\<Prod>i<n. bv_factor ones n i (bit k i)) = 1"
  "\<not> (\<forall>i<n. bit k i = (i \<in> set ones)) \<Longrightarrow> (\<Prod>i<n. bv_factor ones n i (bit k i)) = 0"
proof -
  assume "\<forall>i<n. bit k i = (i \<in> set ones)"
  then have "(\<Prod>i<n. bv_factor ones n i (bit k i)) = (\<Prod>i<n. 1)"
    by (intro prod.cong) (auto simp: bv_factor_def)
  then show "(\<Prod>i<n. bv_factor ones n i (bit k i)) = 1"
    by simp
next
  assume "\<not> (\<forall>i<n. bit k i = (i \<in> set ones))"
  then have "\<exists>i\<in>{..<n}. bv_factor ones n i (bit k i) = 0"
    by (auto simp: bv_factor_def)
  then show "(\<Prod>i<n. bv_factor ones n i (bit k i)) = 0"
    by (simp only: prod_zero_iff finite_lessThan)
qed

lemma bv_amplitude:
  assumes "k < 2 ^ (n + 1)"
  shows "product_state (n + 1) (bv_factor ones n) ! k
      = bv_factor ones n n (bit k n) * (\<Prod>i<n. bv_factor ones n i (bit k i))"
proof -
  have set_eq: "{..<n + 1} - {n} = {..<n}"
    by auto
  show ?thesis
    using nth_product_state_split [of n "n + 1" k "bv_factor ones n"] assms
    by (simp only: set_eq less_add_one)
qed

lemma bv_aux_factor_sq: "(cmod (bv_factor ones n n b))\<^sup>2 = 1 / 2"
  by (simp add: bv_factor_def norm_divide power_divide)

lemma bv_amplitude_sq:
  assumes "k < 2 ^ (n + 1)"
  shows "(\<forall>i<n. bit k i = (i \<in> set ones))
           \<Longrightarrow> (cmod (product_state (n + 1) (bv_factor ones n) ! k))\<^sup>2 = 1 / 2"
    and "\<not> (\<forall>i<n. bit k i = (i \<in> set ones))
           \<Longrightarrow> (cmod (product_state (n + 1) (bv_factor ones n) ! k))\<^sup>2 = 0"
proof -
  assume m: "\<forall>i<n. bit k i = (i \<in> set ones)"
  show "(cmod (product_state (n + 1) (bv_factor ones n) ! k))\<^sup>2 = 1 / 2"
    by (simp only: bv_amplitude [OF assms] bv_data_factors(1) [OF m] mult_1_right
        bv_aux_factor_sq)
next
  assume m: "\<not> (\<forall>i<n. bit k i = (i \<in> set ones))"
  have "product_state (n + 1) (bv_factor ones n) ! k = 0"
    by (simp only: bv_amplitude [OF assms] bv_data_factors(2) [OF m] mult_zero_right)
  then show "(cmod (product_state (n + 1) (bv_factor ones n) ! k))\<^sup>2 = 0"
    by simp
qed

lemma bv_outcome_probability:
  fixes a :: nat
  assumes "a < 2 ^ n"
  shows "(\<forall>i<n. bit a i = (i \<in> set ones))
           \<Longrightarrow> outcome_probability (product_state (n + 1) (bv_factor ones n)) [0..<n] a = 1"
    and "\<not> (\<forall>i<n. bit a i = (i \<in> set ones))
           \<Longrightarrow> outcome_probability (product_state (n + 1) (bv_factor ones n)) [0..<n] a = 0"
proof -
  define \<psi> where "\<psi> = product_state (n + 1) (bv_factor ones n)"
  have lt: "a < 2 ^ (n + 1)" "a + 2 ^ n < 2 ^ (n + 1)"
    using assms by simp_all
  have "a + 2 ^ n \<in> {k. k < 2 ^ (n + 1) \<and> (\<forall>j<n. bit k j = bit a j)}"
    unfolding matching_basis_states [OF assms] by simp
  then have same: "\<forall>j<n. bit (a + 2 ^ n) j = bit a j"
    by blast
  have basis: "set (filter (matches [0..<n] a) [0..<2 ^ (n + 1)]) = {a, a + 2 ^ n}"
    using matching_basis_states [OF assms] by (auto simp: matches_upt)
  have "sum_list (map (\<lambda>k. (cmod (\<psi> ! k))\<^sup>2) (filter (matches [0..<n] a) [0..<2 ^ (n + 1)]))
          = (\<Sum>k\<in>set (filter (matches [0..<n] a) [0..<2 ^ (n + 1)]). (cmod (\<psi> ! k))\<^sup>2)"
    by (intro sum_list_distinct_conv_sum_set) simp
  then have total: "outcome_probability \<psi> [0..<n] a
                      = (cmod (\<psi> ! a))\<^sup>2 + (cmod (\<psi> ! (a + 2 ^ n)))\<^sup>2"
    unfolding basis by (simp add: outcome_probability_def \<psi>_def)
  {
    assume m: "\<forall>i<n. bit a i = (i \<in> set ones)"
    with same have m': "\<forall>i<n. bit (a + 2 ^ n) i = (i \<in> set ones)"
      by simp
    have "(cmod (\<psi> ! a))\<^sup>2 = 1 / 2" "(cmod (\<psi> ! (a + 2 ^ n)))\<^sup>2 = 1 / 2"
      unfolding \<psi>_def using bv_amplitude_sq(1) [OF lt(1) m] bv_amplitude_sq(1) [OF lt(2) m']
      by blast+
    with total show "outcome_probability (product_state (n + 1) (bv_factor ones n)) [0..<n] a = 1"
      unfolding \<psi>_def by simp
  }
  {
    assume m: "\<not> (\<forall>i<n. bit a i = (i \<in> set ones))"
    with same have m': "\<not> (\<forall>i<n. bit (a + 2 ^ n) i = (i \<in> set ones))"
      by simp
    have "(cmod (\<psi> ! a))\<^sup>2 = 0" "(cmod (\<psi> ! (a + 2 ^ n)))\<^sup>2 = 0"
      unfolding \<psi>_def using bv_amplitude_sq(2) [OF lt(1) m] bv_amplitude_sq(2) [OF lt(2) m']
      by blast+
    with total show "outcome_probability (product_state (n + 1) (bv_factor ones n)) [0..<n] a = 0"
      unfolding \<psi>_def by simp
  }
qed

lemma gates_in_range_assembled_circuit:
  "list_all (gate_in_range (length s + 1)) (gates_of (assembled_circuit s))"
proof -
  have "i < length s + 1 \<and> i \<noteq> length s" if "i \<in> set (one_positions s)" for i
    using one_positions_less [OF that] by simp
  then show ?thesis
    by (auto simp: gates_of_assembled_circuit list_all_iff)
qed

lemma evolve_assembled_circuit:
  "evolve (num_qubits (assembled_circuit s)) (gates_of (assembled_circuit s))
     = Inr (product_state (length s + 1) (bv_factor (one_positions s) (length s)))"
  by (simp only: evolve_def num_qubits_assembled_circuit
      gates_in_range_assembled_circuit bv_final_state if_True)

lemma bv_circuit_distribution:
  "circuit_distribution (assembled_circuit s)
     = Inr (map (\<lambda>a. (outcome_bitstring (length s) a,
                       if outcome_bitstring (length s) a = binary_form s then 1 else 0))
                [0..<2 ^ length s])"
proof -
  have "outcome_probability (product_state (length s + 1) (bv_factor (one_positions s) (length s)))
          [0..<length s] a
        = (if outcome_bitstring (length s) a = binary_form s then 1 else 0)"
    if "a < 2 ^ length s" for a :: nat
  proof (cases "outcome_bitstring (length s) a = binary_form s")
    case True
    then have "\<forall>i<length s. bit a i = (i \<in> set (one_positions s))"
      using outcome_bitstring_eq_iff [of s a] by blast
    from bv_outcome_probability(1) [OF that this] True show ?thesis
      by simp
  next
    case False
    then have "\<not> (\<forall>i<length s. bit a i = (i \<in> set (one_positions s)))"
      using outcome_bitstring_eq_iff [of s a] by blast
    from bv_outcome_probability(2) [OF that this] False show ?thesis
      by simp
  qed
  then have "outcome_distribution
        (product_state (length s + 1) (bv_factor (one_positions s) (length s))) [0..<length s]
      = map (\<lambda>a. (outcome_bitstring (length s) a,
                       if outcome_bitstring (length s) a = binary_form s then 1 else 0))
                [0..<2 ^ length s]"
    by (simp add: outcome_distribution_def)
  then show ?thesis
    by (simp only: circuit_distribution_def evolve_assembled_circuit sum.case
        measured_qubits_assembled_circuit)
qed

lemma pick_outcome_degenerate:
  assumes "0 \<le> u" and "u < 1" and "\<exists>a\<in>set as. key a = s"
  shows "pick_outcome u (map (\<lambda>a. (key a, if key a = s then 1 else 0)) as) = s"
  using assms(3)
proof (induction as)
  case Nil
  then show ?case by simp
next
  case (Cons a as)
  show ?case
  proof (cases as)
    case Nil
    with Cons.prems show ?thesis by simp
  next
    case (Cons b bs)
    show ?thesis
    proof (cases "key a = s")
      case True
      with Cons assms(2) show ?thesis by simp
    next
      case False
      with Cons.prems have "\<exists>a\<in>set as. key a = s" by simp
      then have "pick_outcome u (map (\<lambda>a. (key a, if key a = s then 1 else 0)) as) = s"
        by (rule Cons.IH)
      with False Cons assms(1) show ?thesis by simp
    qed
  qed
qed

lemma sum_record_outcome:
  "sum_list (map snd (record_outcome x cs)) = sum_list (map snd cs) + 1"
  by (induction cs) auto

lemma sum_fold_record_outcome:
  "sum_list (map snd (fold record_outcome xs cs)) = sum_list (map snd cs) + length xs"
  by (induction xs arbitrary: cs) (simp_all add: sum_record_outcome)

lemma sum_tally: "sum_list (map snd (tally samples)) = length samples"
  by (simp add: tally_def sum_fold_record_outcome)

lemma fold_record_outcome_replicate:
  "fold record_outcome (replicate m x) [(x, v)] = [(x, v + m)]"
  by (induction m arbitrary: v) (simp_all del: fold_replicate)

lemma tally_replicate: "tally (replicate m x) = (if m = 0 then [] else [(x, m)])"
proof (cases m)
  case 0
  then show ?thesis by (simp add: tally_def)
next
  case (Suc k)
  then show ?thesis
    using fold_record_outcome_replicate [of k x 1]
    by (simp add: tally_def del: fold_replicate)
qed

lemma bv_samples:
  assumes "\<forall>i. 0 \<le> rng seed i \<and> rng seed i < 1"
  shows "sample_shots rng seed
           (map (\<lambda>a. (outcome_bitstring (length s) a,
                       if outcome_bitstring (length s) a = binary_form s then 1 else 0))
                [0..<2 ^ length s]) shots
         = replicate shots (binary_form s)"
proof -
  have "\<exists>a\<in>set [0..<2 ^ length s]. outcome_bitstring (length s) a = binary_form s"
    using secret_value_less [of s] outcome_bitstring_secret_value [of s] by auto
  then have "pick_outcome (rng seed i)
           (map (\<lambda>a. (outcome_bitstring (length s) a,
                       if outcome_bitstring (length s) a = binary_form s then 1 else 0))
                [0..<2 ^ length s]) = binary_form s" for i
    using assms by (intro pick_outcome_degenerate) simp_all
  then show ?thesis
    by (simp add: sample_shots_def map_replicate_const)
qed

lemma bv_simulation:
  assumes "\<forall>i. 0 \<le> rng seed i \<and> rng seed i < 1"
  shows "statevector_simulator rng seed (assembled_circuit s) shots
           = Inr (if shots = 0 then [] else [(binary_form s, shots)])"
  by (simp only: statevector_simulator_def bv_circuit_distribution sum.case
      bv_samples [of rng seed, OF assms] tally_replicate)

lemma bv_run:
  assumes "validate_binary_string s" and "\<forall>i. 0 \<le> rng seed i \<and> rng seed i < 1" and "0 < shots"
  shows "run_bernstein_vazirani (statevector_simulator rng seed) s shots
           = ([RunningSimulation shots, MeasurementLine s shots, FoundString s, Success], Inr ())"
proof -
  have b: "binary_form s = s"
    using assms(1) by (rule binary_form_valid)
  have "statevector_simulator rng seed (assembled_circuit s) shots = Inr [(s, shots)]"
    using bv_simulation [of rng seed, OF assms(2), of s shots] assms(3) b by simp
  then show ?thesis
    using assms(3)
    by (simp add: run_bernstein_vazirani_def bernstein_vazirani_circuit_valid [OF assms(1)]
        simulate_circuit_def counts_get_def)
qed

section \<open>Gates preserve the probability mass\<close>

lemma probability_mass_nth: "probability_mass \<psi> = (\<Sum>k<length \<psi>. (cmod (\<psi> ! k))\<^sup>2)"
proof -
  have "sum_list (map (\<lambda>a. (cmod a)\<^sup>2) \<psi>)
          = (\<Sum>k = 0..<length (map (\<lambda>a. (cmod a)\<^sup>2) \<psi>). map (\<lambda>a. (cmod a)\<^sup>2) \<psi> ! k)"
    by (rule sum_list_sum_nth)
  also have "\<dots> = (\<Sum>k<length \<psi>. (cmod (\<psi> ! k))\<^sup>2)"
    by (simp add: atLeast0LessThan)
  finally show ?thesis
    by (simp only: probability_mass_def)
qed

lemma probability_mass_map_upt:
  "probability_mass (map g [0..<N]) = (\<Sum>k<N. (cmod (g k))\<^sup>2)"
  by (simp add: probability_mass_nth)

lemma sum_reindex_involution:
  fixes F :: "nat \<Rightarrow> real"
  assumes "\<And>k. k \<in> S \<Longrightarrow> p k \<in> S" and "\<And>k. k \<in> S \<Longrightarrow> p (p k) = k"
  shows "(\<Sum>k\<in>S. F (p k)) = (\<Sum>k\<in>S. F k)"
  by (rule sum.reindex_bij_witness [of S p p]) (simp_all add: assms)

lemma probability_mass_PauliX:
  assumes "t < nq" and "length \<psi> = 2 ^ nq"
  shows "probability_mass (apply_gate (PauliX t) \<psi>) = probability_mass \<psi>"
proof -
  have "probability_mass (apply_gate (PauliX t) \<psi>)
          = (\<Sum>k\<in>{..<2 ^ nq}. (cmod (\<psi> ! flip_bit t k))\<^sup>2)"
    by (simp add: probability_mass_map_upt assms(2))
  also have "\<dots> = (\<Sum>k\<in>{..<2 ^ nq}. (cmod (\<psi> ! k))\<^sup>2)"
    using assms(1)
    by (intro sum_reindex_involution [of _ "flip_bit t" "\<lambda>k. (cmod (\<psi> ! k))\<^sup>2"])
      (simp_all add: flip_bit_less flip_bit_flip_bit_nat)
  finally show ?thesis
    by (simp add: probability_mass_nth assms(2))
qed

lemma probability_mass_ControlledNot:
  assumes "c < nq" and "t < nq" and "c \<noteq> t" and "length \<psi> = 2 ^ nq"
  shows "probability_mass (apply_gate (ControlledNot c t) \<psi>) = probability_mass \<psi>"
proof -
  define p where "p = (\<lambda>k::nat. if bit k c then flip_bit t k else k)"
  have range: "p k \<in> {..<2 ^ nq}" if "k \<in> {..<2 ^ nq}" for k
    using that assms(2) by (simp add: p_def flip_bit_less)
  have inv: "p (p k) = k" for k
    using assms(3) by (simp add: p_def bit_flip_bit_nat flip_bit_flip_bit_nat)
  have "probability_mass (apply_gate (ControlledNot c t) \<psi>)
          = (\<Sum>k\<in>{..<2 ^ nq}. (cmod (if bit k c then \<psi> ! flip_bit t k else \<psi> ! k))\<^sup>2)"
    by (simp add: probability_mass_map_upt assms(4))
  also have "\<dots> = (\<Sum>k\<in>{..<2 ^ nq}. (cmod (\<psi> ! p k))\<^sup>2)"
    by (intro sum.cong) (simp_all add: p_def)
  also have "\<dots> = (\<Sum>k\<in>{..<2 ^ nq}. (cmod (\<psi> ! k))\<^sup>2)"
    by (intro sum_reindex_involution [of _ p "\<lambda>k. (cmod (\<psi> ! k))\<^sup>2"]) (simp_all only: range inv)
  finally show ?thesis
    by (simp add: probability_mass_nth assms(4))
qed

lemma sum_over_pairs:
  fixes F :: "nat \<Rightarrow> real"
  assumes "t < nq"
  shows "(\<Sum>k\<in>{..<2 ^ nq}. F k)
           = (\<Sum>k\<in>{k. k < 2 ^ nq \<and> \<not> bit k t}. F k + F (flip_bit t k))"
proof -
  define A where "A = {k::nat. k < 2 ^ nq \<and> \<not> bit k t}"
  define B where "B = {k::nat. k < 2 ^ nq \<and> bit k t}"
  have fin: "finite A" "finite B"
    by (simp_all add: A_def B_def)
  have un: "{..<2 ^ nq} = A \<union> B" and disj: "A \<inter> B = {}"
    by (auto simp: A_def B_def)
  have "(\<Sum>k\<in>B. F k) = (\<Sum>k\<in>A. F (flip_bit t k))"
    using assms
    by (intro sum.reindex_bij_witness [of B "flip_bit t" "flip_bit t"])
      (simp_all add: A_def B_def flip_bit_less flip_bit_flip_bit_nat bit_flip_bit_nat)
  then have "(\<Sum>k\<in>{..<2 ^ nq}. F k) = (\<Sum>k\<in>A. F k) + (\<Sum>k\<in>A. F (flip_bit t k))"
    unfolding un using fin disj by (simp add: sum.union_disjoint)
  then show ?thesis
    by (simp add: A_def sum.distrib)
qed

lemma hadamard_pair_norm:
  "(cmod ((a + b) / complex_of_real (sqrt 2)))\<^sup>2 + (cmod ((a - b) / complex_of_real (sqrt 2)))\<^sup>2
     = (cmod a)\<^sup>2 + (cmod b)\<^sup>2"
proof -
  have "(cmod (a + b))\<^sup>2 + (cmod (a - b))\<^sup>2 = 2 * ((cmod a)\<^sup>2 + (cmod b)\<^sup>2)"
    unfolding cmod_power2 by (simp add: power2_eq_square algebra_simps)
  then show ?thesis
    by (simp add: norm_divide power_divide add_divide_distrib [symmetric])
qed

lemma probability_mass_Hadamard:
  assumes "t < nq" and "length \<psi> = 2 ^ nq"
  shows "probability_mass (apply_gate (Hadamard t) \<psi>) = probability_mass \<psi>"
proof -
  define G where "G = (\<lambda>k. if bit k t
               then (\<psi> ! flip_bit t k - \<psi> ! k) / complex_of_real (sqrt 2)
               else (\<psi> ! k + \<psi> ! flip_bit t k) / complex_of_real (sqrt 2))"
  have "probability_mass (apply_gate (Hadamard t) \<psi>) = (\<Sum>k\<in>{..<2 ^ nq}. (cmod (G k))\<^sup>2)"
    by (simp add: probability_mass_map_upt assms(2) G_def)
  also have "\<dots> = (\<Sum>k\<in>{k. k < 2 ^ nq \<and> \<not> bit k t}. (cmod (G k))\<^sup>2 + (cmod (G (flip_bit t k)))\<^sup>2)"
    using assms(1) by (rule sum_over_pairs)
  also have "\<dots> = (\<Sum>k\<in>{k. k < 2 ^ nq \<and> \<not> bit k t}.
                      (cmod (\<psi> ! k))\<^sup>2 + (cmod (\<psi> ! flip_bit t k))\<^sup>2)"
  proof (rule sum.cong [OF refl])
    fix k :: nat assume "k \<in> {k. k < 2 ^ nq \<and> \<not> bit k t}"
    then have "\<not> bit k t" by simp
    then have "G k = (\<psi> ! k + \<psi> ! flip_bit t k) / complex_of_real (sqrt 2)"
      and "G (flip_bit t k) = (\<psi> ! k - \<psi> ! flip_bit t k) / complex_of_real (sqrt 2)"
      by (simp_all add: G_def bit_flip_bit_nat flip_bit_flip_bit_nat)
    then show "(cmod (G k))\<^sup>2 + (cmod (G (flip_bit t k)))\<^sup>2
                 = (cmod (\<psi> ! k))\<^sup>2 + (cmod (\<psi> ! flip_bit t k))\<^sup>2"
      by (simp only: hadamard_pair_norm)
  qed
  also have "\<dots> = (\<Sum>k\<in>{..<2 ^ nq}. (cmod (\<psi> ! k))\<^sup>2)"
    using assms(1) by (rule sum_over_pairs [symmetric])
  finally show ?thesis
    by (simp add: probability_mass_nth assms(2))
qed

lemma probability_mass_apply_gate:
  assumes "gate_in_range nq g" and "length \<psi> = 2 ^ nq"
  shows "probability_mass (apply_gate g \<psi>) = probability_mass \<psi>"
proof (cases g)
  case (PauliX t)
  with assms show ?thesis by (simp add: probability_mass_PauliX del: apply_gate.simps)
next
  case (Hadamard t)
  with assms show ?thesis by (simp add: probability_mass_Hadamard del: apply_gate.simps)
next
  case (ControlledNot c t)
  with assms have "c < nq" "t < nq" "c \<noteq> t" by simp_all
  then show ?thesis
    unfolding ControlledNot using assms(2) by (rule probability_mass_ControlledNot)
qed

lemma probability_mass_run_gates:
  assumes "list_all (gate_in_range nq) gs" and "length \<psi> = 2 ^ nq"
  shows "probability_mass (run_gates gs \<psi>) = probability_mass \<psi>"
  using assms
proof (induction gs arbitrary: \<psi>)
  case Nil
  then show ?case by (simp add: run_gates_Nil)
next
  case (Cons g gs)
  then have "probability_mass (run_gates gs (apply_gate g \<psi>)) = probability_mass (apply_gate g \<psi>)"
    by (intro Cons.IH) simp_all
  also have "\<dots> = probability_mass \<psi>"
    using Cons.prems by (intro probability_mass_apply_gate) simp_all
  finally show ?case
    by (simp only: run_gates_Cons)
qed

lemma probability_mass_initial_state: "probability_mass (initial_state nq) = 1"
proof -
  have "probability_mass (initial_state nq)
          = (\<Sum>k\<in>{..<(2::nat) ^ nq}. (cmod (if k = 0 then 1 else 0))\<^sup>2)"
    by (simp add: initial_state_def probability_mass_map_upt)
  also have "\<dots> = (\<Sum>k\<in>{..<(2::nat) ^ nq}. if k = 0 then 1 else 0)"
    by (intro sum.cong) simp_all
  also have "\<dots> = 1"
    by (simp add: sum.delta')
  finally show ?thesis .
qed

lemma probability_mass_prefix:
  assumes "list_all (gate_in_range nq) gs"
  shows "probability_mass (run_gates (take j gs) (initial_state nq)) = 1"
proof -
  have "list_all (gate_in_range nq) (take j gs)"
    using assms by (auto simp: list_all_iff dest: in_set_takeD)
  then have "probability_mass (run_gates (take j gs) (initial_state nq))
               = probability_mass (initial_state nq)"
    by (intro probability_mass_run_gates) (simp_all add: initial_state_def)
  then show ?thesis
    by (simp only: probability_mass_initial_state)
qed

section \<open>The found string, samples and small circuits\<close>

lemma fold_max_key_mem:
  "fold (\<lambda>y best. if f best < f y then y else best) xs x \<in> set (x # xs)"
  by (induction xs arbitrary: x) auto

lemma fold_max_key_ge_start:
  "(f x :: nat) \<le> f (fold (\<lambda>y best. if f best < f y then y else best) xs x)"
proof (induction xs arbitrary: x)
  case Nil
  then show ?case by simp
next
  case (Cons y ys)
  show ?case
  proof (cases "f x < f y")
    case True
    with Cons.IH [of y] show ?thesis by simp
  next
    case False
    with Cons.IH [of x] show ?thesis by simp
  qed
qed

lemma fold_max_key_ge:
  "z \<in> set (x # xs) \<Longrightarrow> (f z :: nat) \<le> f (fold (\<lambda>y best. if f best < f y then y else best) xs x)"
proof (induction xs arbitrary: x)
  case Nil
  then show ?case by simp
next
  case (Cons y ys)
  let ?b = "if f x < f y then y else x"
  have step: "fold (\<lambda>y best. if f best < f y then y else best) (y # ys) x
                = fold (\<lambda>y best. if f best < f y then y else best) ys ?b"
    by simp
  have start: "f ?b \<le> f (fold (\<lambda>y best. if f best < f y then y else best) ys ?b)"
    by (rule fold_max_key_ge_start)
  show ?case
  proof (cases "z \<in> set ys")
    case True
    then have "z \<in> set (?b # ys)" by simp
    then show ?thesis
      unfolding step by (rule Cons.IH)
  next
    case False
    with Cons.prems have "z = x \<or> z = y" by auto
    then have "f z \<le> f ?b" by auto
    with start show ?thesis
      unfolding step by (rule order_trans [rotated])
  qed
qed

lemma max_key_spec:
  assumes "xs \<noteq> []"
  shows "\<exists>m. max_key f xs = Inr m \<and> m \<in> set xs \<and> (\<forall>z\<in>set xs. f z \<le> f m)"
proof (cases xs)
  case Nil
  with assms show ?thesis by simp
next
  case (Cons x ys)
  then show ?thesis
    using fold_max_key_mem [of f ys x] fold_max_key_ge [of _ x ys f] by auto
qed

lemma counts_get_distinct:
  assumes "distinct (map fst cnts)" and "(k, v) \<in> set cnts"
  shows "counts_get cnts k = v"
  using assms by (simp add: counts_get_def)

lemma length_sample_shots: "length (sample_shots rng seed distr shots) = shots"
  by (simp add: sample_shots_def)

lemma low_bits_determine:
  fixes a b :: nat
  assumes "a < 2 ^ n" and "b < 2 ^ n" and "\<forall>i<n. bit a i = bit b i"
  shows "a = b"
proof -
  have "b \<in> {k. k < 2 ^ (n + 1) \<and> (\<forall>j<n. bit k j = bit a j)}"
    using assms(2,3) by simp
  then have "b = a \<or> b = a + 2 ^ n"
    unfolding matching_basis_states [OF assms(1)] by simp
  with assms(2) show ?thesis by auto
qed

lemma unique_outcome_of_secret:
  "\<exists>!a. a < 2 ^ length s \<and> outcome_bitstring (length s) a = binary_form s"
proof (rule ex1I [of _ "secret_value s"])
  show "secret_value s < 2 ^ length s \<and> outcome_bitstring (length s) (secret_value s) = binary_form s"
    by (simp add: secret_value_less outcome_bitstring_secret_value)
next
  fix a assume a: "a < 2 ^ length s \<and> outcome_bitstring (length s) a = binary_form s"
  then have "\<forall>i<length s. bit a i = (i \<in> set (one_positions s))"
    using outcome_bitstring_eq_iff [of s a] by blast
  then have "\<forall>i<length s. bit a i = bit (secret_value s) i"
    by (simp add: bit_secret_value)
  with a show "a = secret_value s"
    using low_bits_determine [of a "length s" "secret_value s"] secret_value_less [of s] by blast
qed

lemma empty_secret_fails_before_simulation:
  "run_bernstein_vazirani simulator [] shots = ([], Inl CircuitError)"
  by (simp add: run_bernstein_vazirani_def bernstein_vazirani_circuit_empty)





section \<open>The claims\<close>

text \<open>
  C2. For every non-empty binary secret \<open>s\<close> of length \<open>n\<close>, \<open>create_oracle\<close> returns
  exactly the gates \<open>ControlledNot i n\<close> for the positions \<open>i\<close> whose bit is \<open>1\<close>, where
  position \<open>i\<close> is the character \<open>i\<close> places before the last one, each once, in
  increasing order of \<open>i\<close>, and nothing else. An all-zeros secret gives no gate, and
  the secret \<open>101\<close> gives the two gates with controls 0 and 2 and target 3.
\<close>

theorem create_oracle_gates:
  assumes "validate_binary_string s"
  shows "data (create_oracle s)
           = map (\<lambda>i. Gate (ControlledNot i (length s)))
               (filter (\<lambda>i. s ! (length s - 1 - i) = CHR ''1'') [0..<length s])
         \<and> ((\<forall>c \<in> set s. c = CHR ''0'') \<longrightarrow> data (create_oracle s) = [])
         \<and> data (create_oracle ''101'') = [Gate (ControlledNot 0 3), Gate (ControlledNot 2 3)]"
proof -
  have a: "data (create_oracle s)
           = map (\<lambda>i. Gate (ControlledNot i (length s)))
               (filter (\<lambda>i. s ! (length s - 1 - i) = CHR ''1'') [0..<length s])"
    by (simp only: data_create_oracle one_positions_nth)
  have b: "(\<forall>c \<in> set s. c = CHR ''0'') \<longrightarrow> data (create_oracle s) = []"
    by (simp add: data_create_oracle one_positions_all_zero)
  have c: "data (create_oracle ''101'') = [Gate (ControlledNot 0 3), Gate (ControlledNot 2 3)]"
    by (simp add: data_create_oracle one_positions_def)
  from a b c show ?thesis by blast
qed

theorem create_oracle_gates_witness:
  "validate_binary_string ''110''
   \<and> data (create_oracle ''110'') = [Gate (ControlledNot 1 3), Gate (ControlledNot 2 3)]"
proof -
  have v: "validate_binary_string ''110''"
    by (simp add: validate_binary_string_def)
  have "data (create_oracle ''110'')
           = map (\<lambda>i. Gate (ControlledNot i (length ''110'')))
               (filter (\<lambda>i. ''110'' ! (length ''110'' - 1 - i) = CHR ''1'') [0..<length ''110''])"
    using create_oracle_gates [OF v] by blast
  then show ?thesis
    using v by simp
qed

text \<open>
  C3. For every non-empty binary secret of length \<open>n\<close>, \<open>bernstein_vazirani_circuit\<close>
  returns a circuit, which has \<open>n + 1\<close> qubits and \<open>n\<close> classical bits. Its instructions
  other than the barriers are, in order: PauliX on qubit \<open>n\<close>, Hadamard on qubit \<open>n\<close>,
  Hadamard on each of the qubits \<open>0..n-1\<close>, the gates of the oracle, Hadamard on each of
  \<open>0..n-1\<close> again, and the measurement of each qubit \<open>0..n-1\<close>. The measured qubits
  are exactly \<open>0..n-1\<close>; qubit \<open>n\<close> is not among them.
\<close>

theorem bernstein_vazirani_circuit_structure:
  assumes "validate_binary_string s"
  shows "\<exists>c. bernstein_vazirani_circuit s = Inr c
           \<and> num_qubits c = length s + 1
           \<and> num_clbits c = length s
           \<and> data (remove_barriers c)
               = map Gate ([PauliX (length s), Hadamard (length s)]
                           @ map Hadamard [0..<length s]
                           @ gates_of (create_oracle s)
                           @ map Hadamard [0..<length s])
                 @ map (\<lambda>q. Measure q q) [0..<length s]
           \<and> measured_qubits c = [0..<length s]
           \<and> length s \<notin> set (measured_qubits c)"
proof -
  have o: "filter (\<lambda>i. \<not> is_barrier i) (data (create_oracle s)) = data (create_oracle s)"
    by (simp add: data_create_oracle)
  have "data (remove_barriers (assembled_circuit s))
          = map Gate ([PauliX (length s), Hadamard (length s)]
                      @ map Hadamard [0..<length s]
                      @ gates_of (create_oracle s)
                      @ map Hadamard [0..<length s])
            @ map (\<lambda>q. Measure q q) [0..<length s]"
    by (simp add: remove_barriers_def data_assembled_circuit o comp_def
        gates_of_create_oracle data_create_oracle del: upt_Suc)
  then have "num_qubits (assembled_circuit s) = length s + 1
           \<and> num_clbits (assembled_circuit s) = length s
           \<and> data (remove_barriers (assembled_circuit s))
               = map Gate ([PauliX (length s), Hadamard (length s)]
                           @ map Hadamard [0..<length s]
                           @ gates_of (create_oracle s)
                           @ map Hadamard [0..<length s])
                 @ map (\<lambda>q. Measure q q) [0..<length s]
           \<and> measured_qubits (assembled_circuit s) = [0..<length s]
           \<and> length s \<notin> set (measured_qubits (assembled_circuit s))"
    by (simp add: num_qubits_assembled_circuit num_clbits_assembled_circuit
        measured_qubits_assembled_circuit del: upt_Suc)
  with bernstein_vazirani_circuit_valid [OF assms] show ?thesis
    by blast
qed

theorem bernstein_vazirani_circuit_structure_witness:
  "validate_binary_string ''10''
   \<and> (\<exists>c. bernstein_vazirani_circuit ''10'' = Inr c
          \<and> num_qubits c = 3
          \<and> num_clbits c = 2
          \<and> data (remove_barriers c)
              = [Gate (PauliX 2), Gate (Hadamard 2), Gate (Hadamard 0), Gate (Hadamard 1),
                 Gate (ControlledNot 1 2), Gate (Hadamard 0), Gate (Hadamard 1),
                 Measure 0 0, Measure 1 1])"
proof -
  have v: "validate_binary_string ''10''"
    by (simp add: validate_binary_string_def)
  from bernstein_vazirani_circuit_structure [OF v] obtain c where
    c: "bernstein_vazirani_circuit ''10'' = Inr c" "num_qubits c = length ''10'' + 1"
      "num_clbits c = length ''10''"
      "data (remove_barriers c)
         = map Gate ([PauliX (length ''10''), Hadamard (length ''10'')]
                     @ map Hadamard [0..<length ''10'']
                     @ gates_of (create_oracle ''10'')
                     @ map Hadamard [0..<length ''10''])
           @ map (\<lambda>q. Measure q q) [0..<length ''10'']"
    by blast
  have "num_qubits c = 3" "num_clbits c = 2"
    "data (remove_barriers c)
       = [Gate (PauliX 2), Gate (Hadamard 2), Gate (Hadamard 0), Gate (Hadamard 1),
          Gate (ControlledNot 1 2), Gate (Hadamard 0), Gate (Hadamard 1),
          Measure 0 0, Measure 1 1]"
    using c(2,3,4) by (simp_all add: gates_of_create_oracle one_positions_def)
  with v c(1) show ?thesis
    by blast
qed

text \<open>
  C10. \<open>validate_binary_string\<close> accepts a string exactly when it is not empty and each
  of its characters is \<open>0\<close> or \<open>1\<close>; it does not accept the empty string.
\<close>

theorem validate_binary_string_spec:
  "(validate_binary_string s
      \<longleftrightarrow> length s > 0 \<and> (\<forall>c \<in> set s. c = CHR ''0'' \<or> c = CHR ''1''))
   \<and> \<not> validate_binary_string []"
  by (auto simp: validate_binary_string_def list_all_iff)

theorem validate_binary_string_spec_witness:
  "validate_binary_string ''0110'' \<and> \<not> validate_binary_string ''0120''"
  using validate_binary_string_spec [of "''0110''"] validate_binary_string_spec [of "''0120''"]
  by simp

text \<open>
  C1. For every non-empty binary secret \<open>s\<close>, of any length, the outcome distribution of
  the assembled circuit gives probability 1 to the outcome written \<open>s\<close> and probability 0
  to every other outcome, and exactly one outcome is written \<open>s\<close>. With one shot, on any
  random source with variates in \<open>[0, 1)\<close>, the counts are \<open>{s: 1}\<close>, and the run
  of the algorithm prints the line for \<open>s\<close> with count 1, the found string \<open>s\<close> and the
  verdict of success.
\<close>

theorem bernstein_vazirani_exact_recovery:
  assumes "validate_binary_string s" and "\<forall>i. 0 \<le> rng seed i \<and> rng seed i < 1"
  shows "\<exists>c. bernstein_vazirani_circuit s = Inr c
           \<and> circuit_distribution c
               = Inr (map (\<lambda>a. (outcome_bitstring (length s) a,
                                 if outcome_bitstring (length s) a = s then 1 else 0))
                          [0..<2 ^ length s])
           \<and> (\<exists>!a. a < 2 ^ length s \<and> outcome_bitstring (length s) a = s)
           \<and> simulate_circuit (statevector_simulator rng seed) c 1 = Inr [(s, 1)]
           \<and> run_bernstein_vazirani (statevector_simulator rng seed) s 1
               = ([RunningSimulation 1, MeasurementLine s 1, FoundString s, Success], Inr ())"
proof -
  have b: "binary_form s = s"
    using assms(1) by (rule binary_form_valid)
  have "\<exists>!a. a < 2 ^ length s \<and> outcome_bitstring (length s) a = s"
    using unique_outcome_of_secret [of s] by (simp only: b)
  moreover have "run_bernstein_vazirani (statevector_simulator rng seed) s 1
               = ([RunningSimulation 1, MeasurementLine s 1, FoundString s, Success], Inr ())"
    using bv_run [of s rng seed 1] assms by simp
  moreover have "circuit_distribution (assembled_circuit s)
           = Inr (map (\<lambda>a. (outcome_bitstring (length s) a,
                             if outcome_bitstring (length s) a = s then 1 else 0))
                      [0..<2 ^ length s])"
    using bv_circuit_distribution [of s] by (simp only: b)
  moreover have "simulate_circuit (statevector_simulator rng seed) (assembled_circuit s) 1
                   = Inr [(s, 1)]"
    using bv_simulation [of rng seed, OF assms(2), of s 1] b by (simp add: simulate_circuit_def)
  ultimately show ?thesis
    using bernstein_vazirani_circuit_valid [OF assms(1)] by blast
qed

theorem bernstein_vazirani_exact_recovery_witness:
  "validate_binary_string ''101'' \<and> (\<forall>i. 0 \<le> parity_rng 7 i \<and> parity_rng 7 i < 1)
   \<and> run_bernstein_vazirani (statevector_simulator parity_rng 7) ''101'' 1
       = ([RunningSimulation 1, MeasurementLine ''101'' 1, FoundString ''101'', Success], Inr ())"
proof -
  have v: "validate_binary_string ''101''"
    by (simp add: validate_binary_string_def)
  have r: "\<forall>i. 0 \<le> parity_rng 7 i \<and> parity_rng 7 i < 1"
    by (simp add: parity_rng_def)
  show ?thesis
    using v r bernstein_vazirani_exact_recovery
      [where s = "''101''" and rng = parity_rng and seed = 7, OF v r] by blast
qed

text \<open>
  C4. For every non-empty binary secret and every shot count of at least 1, simulating
  the assembled circuit gives a counts dictionary whose values sum to the shot count.
\<close>

theorem counts_sum_to_shots:
  assumes "validate_binary_string s" and "1 \<le> shots"
  shows "\<exists>c cnts. bernstein_vazirani_circuit s = Inr c
                 \<and> simulate_circuit (statevector_simulator rng seed) c shots = Inr cnts
                 \<and> sum_list (map snd cnts) = shots"
proof -
  have "\<exists>cnts. simulate_circuit (statevector_simulator rng seed) (assembled_circuit s) shots
                  = Inr cnts
               \<and> sum_list (map snd cnts) = shots"
    by (simp add: simulate_circuit_def statevector_simulator_def bv_circuit_distribution
        sum_tally length_sample_shots)
  with bernstein_vazirani_circuit_valid [OF assms(1)] show ?thesis
    by blast
qed

theorem counts_sum_to_shots_witness:
  "validate_binary_string ''1011'' \<and> (1::nat) \<le> 1024
   \<and> (\<exists>c cnts. bernstein_vazirani_circuit ''1011'' = Inr c
               \<and> simulate_circuit (statevector_simulator parity_rng 3) c 1024 = Inr cnts
               \<and> sum_list (map snd cnts) = 1024)"
proof -
  have v: "validate_binary_string ''1011''"
    by (simp add: validate_binary_string_def)
  have n: "(1::nat) \<le> 1024"
    by simp
  show ?thesis
    using v n counts_sum_to_shots
      [where s = "''1011''" and shots = 1024 and rng = parity_rng and seed = 3, OF v n] by blast
qed

text \<open>
  C5. An empty secret ends \<open>run_bernstein_vazirani\<close> before any simulation (lemma
  \<open>empty_secret_fails_before_simulation\<close>), but a shot count of 0 does not: with the
  secret \<open>101\<close> and 0 shots the run is announced and the simulator is asked, and what
  comes back decides how the run ends: the simulator's own error, or the error of
  \<open>max\<close> on empty counts (what the simulator of the specification leads to), or the
  division by the zero shot count. None of them is a rejection of the input before the
  simulation.
\<close>

theorem zero_shots_reach_the_simulator:
  "run_bernstein_vazirani failing_simulator ''101'' 0 = ([RunningSimulation 0], Inl SimulatorError)
   \<and> run_bernstein_vazirani (fixed_simulator []) ''101'' 0
       = ([RunningSimulation 0], Inl ValueError)
   \<and> run_bernstein_vazirani (fixed_simulator [(''101'', 0)]) ''101'' 0
       = ([RunningSimulation 0], Inl ZeroDivisionError)
   \<and> run_bernstein_vazirani (statevector_simulator zero_rng 0) ''101'' 0
       = ([RunningSimulation 0], Inl ValueError)"
proof -
  have v: "validate_binary_string ''101''"
    by (simp add: validate_binary_string_def)
  have "\<forall>i. 0 \<le> zero_rng 0 i \<and> zero_rng 0 i < 1"
    by (simp add: zero_rng_def)
  then have "statevector_simulator zero_rng 0 (assembled_circuit ''101'') 0 = Inr []"
    using bv_simulation [of zero_rng 0 "''101''" 0] by simp
  then show ?thesis
    by (simp add: run_bernstein_vazirani_def bernstein_vazirani_circuit_valid [OF v]
        simulate_circuit_def failing_simulator_def fixed_simulator_def)
qed




text \<open>
  C7. For every non-empty binary secret, the state after each gate of the assembled
  circuit, that is after every prefix of its gate sequence, has probability mass exactly 1
  in exact arithmetic; so has the final state the engine returns.
\<close>

theorem probability_mass_preserved:
  assumes "validate_binary_string s"
  shows "\<exists>c. bernstein_vazirani_circuit s = Inr c
           \<and> (\<forall>j\<le>length (gates_of c).
                 probability_mass
                   (run_gates (take j (gates_of c)) (initial_state (num_qubits c))) = 1)
           \<and> (\<exists>\<psi>. evolve (num_qubits c) (gates_of c) = Inr \<psi> \<and> probability_mass \<psi> = 1)"
proof -
  have r: "list_all (gate_in_range (num_qubits (assembled_circuit s)))
             (gates_of (assembled_circuit s))"
    by (simp only: num_qubits_assembled_circuit gates_in_range_assembled_circuit)
  have p: "probability_mass
              (run_gates (take j (gates_of (assembled_circuit s)))
                 (initial_state (num_qubits (assembled_circuit s)))) = 1" for j
    using r by (rule probability_mass_prefix)
  from p [of "length (gates_of (assembled_circuit s))"]
  have "probability_mass
          (run_gates (gates_of (assembled_circuit s))
             (initial_state (num_qubits (assembled_circuit s)))) = 1"
    by simp
  with r have "\<exists>\<psi>. evolve (num_qubits (assembled_circuit s))
                    (gates_of (assembled_circuit s)) = Inr \<psi>
                \<and> probability_mass \<psi> = 1"
    by (simp add: evolve_def)
  with p bernstein_vazirani_circuit_valid [OF assms] show ?thesis by blast
qed

theorem probability_mass_preserved_witness:
  "validate_binary_string ''11''
   \<and> (\<exists>c. bernstein_vazirani_circuit ''11'' = Inr c
          \<and> 5 \<le> length (gates_of c)
          \<and> probability_mass
               (run_gates (take 5 (gates_of c)) (initial_state (num_qubits c))) = 1)"
proof -
  have v: "validate_binary_string ''11''"
    by (simp add: validate_binary_string_def)
  from probability_mass_preserved [OF v] obtain c where
    c: "bernstein_vazirani_circuit ''11'' = Inr c"
      "\<forall>j\<le>length (gates_of c).
         probability_mass (run_gates (take j (gates_of c)) (initial_state (num_qubits c))) = 1"
    by blast
  from c(1) have "c = assembled_circuit ''11''"
    by (simp add: bernstein_vazirani_circuit_valid [OF v])
  then have "5 \<le> length (gates_of c)"
    by (simp add: gates_of_assembled_circuit)
  with v c show ?thesis by blast
qed

text \<open>
  C8 as stated does not hold of \<open>run_bernstein_vazirani\<close>: it returns no record with the
  counts and the found string. On the secret \<open>10\<close>, 4 shots and the counts
  \<open>{10: 3, 01: 1}\<close> it returns \<open>None\<close>; the counts and the found string are printed.
\<close>

theorem run_returns_nothing_counterexample:
  "run_bernstein_vazirani (fixed_simulator [(''10'', 3), (''01'', 1)]) ''10'' 4
     = ([RunningSimulation 4, MeasurementLine ''10'' 3, MeasurementLine ''01'' 1,
         FoundString ''10'', Success], Inr ())"
proof -
  have v: "validate_binary_string ''10''"
    by (simp add: validate_binary_string_def)
  show ?thesis
    by (simp add: run_bernstein_vazirani_def bernstein_vazirani_circuit_valid [OF v]
        simulate_circuit_def fixed_simulator_def counts_get_def)
qed

text \<open>
  C8, amended. On a valid secret and shot count, when the simulator returns a non-empty
  counts dictionary, \<open>run_bernstein_vazirani\<close> returns \<open>None\<close> and prints the counts,
  sorted by descending count, and a found string; the found string is a key of the
  counts, and its count is at least the count of every key.
\<close>

theorem found_string_has_maximal_count:
  assumes "validate_binary_string secret" and "1 \<le> shots"
    and "bernstein_vazirani_circuit secret = Inr c"
    and "simulator c shots = Inr cnts"
    and "cnts \<noteq> []" and "distinct (map fst cnts)"
  shows "\<exists>found.
           run_bernstein_vazirani simulator secret shots
             = (RunningSimulation shots
                  # map (\<lambda>(k, v). MeasurementLine k v) (sort_key (\<lambda>p. - int (snd p)) cnts)
                  @ [FoundString found, if found = secret then Success else Mismatch],
                Inr ())
           \<and> (found, counts_get cnts found) \<in> set cnts
           \<and> (\<forall>(k, v)\<in>set cnts. v \<le> counts_get cnts found)"
proof -
  from assms(5) have "map fst cnts \<noteq> []" by simp
  then obtain m where m: "max_key (counts_get cnts) (map fst cnts) = Inr m"
    "m \<in> set (map fst cnts)" "\<forall>z\<in>set (map fst cnts). counts_get cnts z \<le> counts_get cnts m"
    using max_key_spec [of "map fst cnts" "counts_get cnts"] by blast
  from m(2) obtain v where "(m, v) \<in> set cnts" by auto
  with assms(6) have mem: "(m, counts_get cnts m) \<in> set cnts"
    by (simp add: counts_get_distinct)
  have le: "v \<le> counts_get cnts m" if "(k, v) \<in> set cnts" for k v
  proof -
    from that have "k \<in> set (map fst cnts)" by force
    with m(3) have "counts_get cnts k \<le> counts_get cnts m" by blast
    with assms(6) that show ?thesis by (simp add: counts_get_distinct)
  qed
  have "run_bernstein_vazirani simulator secret shots
          = (RunningSimulation shots
               # map (\<lambda>(k, v). MeasurementLine k v) (sort_key (\<lambda>p. - int (snd p)) cnts)
               @ [FoundString m, if m = secret then Success else Mismatch],
             Inr ())"
    using assms(2,3,4) m(1) by (simp add: run_bernstein_vazirani_def simulate_circuit_def)
  with mem le show ?thesis by auto
qed

theorem found_string_has_maximal_count_witness:
  "validate_binary_string ''10'' \<and> (1::nat) \<le> 4
   \<and> bernstein_vazirani_circuit ''10'' = Inr (assembled_circuit ''10'')
   \<and> fixed_simulator [(''01'', 1), (''10'', 3)] (assembled_circuit ''10'') 4
       = Inr [(''01'', 1), (''10'', 3)]
   \<and> [(''01'', 1 :: nat), (''10'', 3)] \<noteq> [] \<and> distinct (map fst [(''01'', 1 :: nat), (''10'', 3)])
   \<and> (\<exists>found.
          run_bernstein_vazirani (fixed_simulator [(''01'', 1), (''10'', 3)]) ''10'' 4
            = (RunningSimulation 4
                 # map (\<lambda>(k, v). MeasurementLine k v)
                     (sort_key (\<lambda>p. - int (snd p)) [(''01'', 1), (''10'', 3)])
                 @ [FoundString found, if found = ''10'' then Success else Mismatch],
               Inr ())
          \<and> (found, counts_get [(''01'', 1), (''10'', 3)] found) \<in> set [(''01'', 1), (''10'', 3)]
          \<and> (\<forall>(k, v)\<in>set [(''01'', 1), (''10'', 3)].
                v \<le> counts_get [(''01'', 1), (''10'', 3)] found))"
proof -
  have v: "validate_binary_string ''10''"
    by (simp add: validate_binary_string_def)
  have n: "(1::nat) \<le> 4" by simp
  have b: "bernstein_vazirani_circuit ''10'' = Inr (assembled_circuit ''10'')"
    using v by (rule bernstein_vazirani_circuit_valid)
  have f: "fixed_simulator [(''01'', 1), (''10'', 3)] (assembled_circuit ''10'') 4
       = Inr [(''01'', 1), (''10'', 3)]"
    by (simp add: fixed_simulator_def)
  have e: "[(''01'', 1 :: nat), (''10'', 3)] \<noteq> []" by simp
  have d: "distinct (map fst [(''01'', 1 :: nat), (''10'', 3)])" by simp
  show ?thesis
    using v n b f e d found_string_has_maximal_count
      [where secret = "''10''" and shots = 4 and cnts = "[(''01'', 1), (''10'', 3)]"
         and c = "assembled_circuit ''10''"
         and simulator = "fixed_simulator [(''01'', 1), (''10'', 3)]", OF v n b f e d]
    by blast
qed

end
